theory Spec2Isabelle
  imports Main
begin

section \<open>Data model\<close>

text \<open>
  \<^verbatim>\<open>struct Formula { int numVariables; int numClauses; std::vector<std::vector<int>> clauses; }\<close>
  (sat/include/core/Formula.h). The C++ \<^verbatim>\<open>int\<close> is modelled as a mathematical integer: the
  solver only compares integers, takes absolute values and counts loop indices up by one,
  and the model compares every index with the length of the vector before it reads. The
  one absolute value that a 32-bit \<^verbatim>\<open>int\<close> cannot hold, that of the least \<^verbatim>\<open>int\<close>, is
  beyond the length of any vector the constructor can build, so the model reads out of
  range there.
\<close>

record Formula =
  numVariables :: int
  numClauses :: int
  clauses :: "int list list"

text \<open>
  The source indexes its vectors with \<^verbatim>\<open>operator[]\<close>, which checks nothing: an index outside
  the vector has no defined behaviour, and a build may well read or write past the vector
  and run on. The model ends the run at such an access with an error value, so a result
  \<open>Inr\<close> of the model is the result of a run that stayed within its vectors, and says
  nothing about what the program does on an input for which the model returns \<open>Inl\<close>.
  The constructor of a vector refuses a negative size; that is an outcome of the model,
  too.
\<close>

datatype error = ClauseOutOfRange | AssignOutOfRange | LengthError

text \<open>The bounds of a 32-bit \<^verbatim>\<open>int\<close>.\<close>

definition INT_MAX :: int where
  "INT_MAX = 2147483647"

definition INT_MIN :: int where
  "INT_MIN = - 2147483648"

text \<open>\<^verbatim>\<open>assigns[i]\<close> as a read and as a write; \<^verbatim>\<open>formula.clauses[i]\<close>.\<close>

definition assigns_at :: "int list \<Rightarrow> int \<Rightarrow> error + int" where
  "assigns_at a i =
     (if 0 \<le> i \<and> i < int (length a) then Inr (a ! nat i) else Inl AssignOutOfRange)"

definition assigns_set :: "int list \<Rightarrow> int \<Rightarrow> int \<Rightarrow> error + int list" where
  "assigns_set a i v =
     (if 0 \<le> i \<and> i < int (length a) then Inr (a[nat i := v]) else Inl AssignOutOfRange)"

definition clause_at :: "Formula \<Rightarrow> int \<Rightarrow> error + int list" where
  "clause_at F i =
     (if 0 \<le> i \<and> i < int (length (clauses F)) then Inr (clauses F ! nat i)
      else Inl ClauseOutOfRange)"

section \<open>The propagator\<close>

text \<open>
  The inner loop of \<^verbatim>\<open>DPLLSolver::propagate\<close> over the literals of one clause (lines 31-43):
  it stops with \<open>satisfied\<close> at the first literal that evaluates true, and collects the
  literals whose variable reads 0 in \<open>unassignedLits\<close>, in order.
\<close>

fun scan_lits :: "int list \<Rightarrow> int list \<Rightarrow> int list \<Rightarrow> error + (bool \<times> int list)" where
  "scan_lits a [] unassignedLits = Inr (False, unassignedLits)"
| "scan_lits a (lit # rest) unassignedLits =
     (case assigns_at a (abs lit) of
        Inl e \<Rightarrow> Inl e
      | Inr v \<Rightarrow>
          if (lit > 0 \<and> v = 1) \<or> (lit < 0 \<and> v = - 1) then Inr (True, unassignedLits)
          else scan_lits a rest (if v = 0 then unassignedLits @ [lit] else unassignedLits))"

text \<open>
  One pass of the \<^verbatim>\<open>for\<close> loop over the clause indices (lines 26-65). It either runs into
  a clause with no true and no unassigned literal (\<^verbatim>\<open>return false\<close>, the assignment left as
  it is at that moment), or completes with the flag \<open>changed\<close>.
\<close>

datatype pass = Conflict "int list" | Completed bool "int list"

fun for_clauses :: "Formula \<Rightarrow> int list \<Rightarrow> bool \<Rightarrow> int list \<Rightarrow> error + pass" where
  "for_clauses F [] changed a = Inr (Completed changed a)"
| "for_clauses F (i # rest) changed a =
     (case clause_at F i of
        Inl e \<Rightarrow> Inl e
      | Inr clause \<Rightarrow>
          (case scan_lits a clause [] of
             Inl e \<Rightarrow> Inl e
           | Inr (satisfied, unassignedLits) \<Rightarrow>
               if satisfied then for_clauses F rest changed a
               else if unassignedLits = [] then Inr (Conflict a)
               else if length unassignedLits = 1 then
                 (let lit = unassignedLits ! 0; var = abs lit in
                  case assigns_set a var (if lit > 0 then 1 else - 1) of
                    Inl e \<Rightarrow> Inl e
                  | Inr a' \<Rightarrow> for_clauses F rest True a')
               else for_clauses F rest changed a))"

text \<open>The number of entries of the assignment vector that read 0 (unassigned).\<close>

definition zeros :: "int list \<Rightarrow> nat" where
  "zeros a = length (filter (\<lambda>x. x = 0) a)"

lemma zeros_update_le: "v \<noteq> 0 \<Longrightarrow> zeros (a[i := v]) \<le> zeros a"
  unfolding zeros_def
proof (induction a arbitrary: i)
  case Nil
  then show ?case by simp
next
  case (Cons x xs)
  then show ?case by (cases i) (auto simp: le_SucI)
qed

lemma zeros_update_less:
  "i < length a \<Longrightarrow> a ! i = 0 \<Longrightarrow> v \<noteq> 0 \<Longrightarrow> zeros (a[i := v]) < zeros a"
  unfolding zeros_def
proof (induction a arbitrary: i)
  case Nil
  then show ?case by simp
next
  case (Cons x xs)
  then show ?case by (cases i) auto
qed

lemma zeros_update_Suc: "zeros (a[i := v]) \<le> Suc (zeros a)"
  unfolding zeros_def
proof (induction a arbitrary: i)
  case Nil
  then show ?case by simp
next
  case (Cons x xs)
  then show ?case by (cases i) (auto simp: le_SucI)
qed

lemma scan_lits_unassigned:
  "scan_lits a c un = Inr (s, un') \<Longrightarrow> list_all (\<lambda>l. assigns_at a (abs l) = Inr 0) un
     \<Longrightarrow> list_all (\<lambda>l. assigns_at a (abs l) = Inr 0) un'"
proof (induction c arbitrary: un)
  case Nil
  then show ?case by simp
next
  case (Cons lit rest)
  then show ?case by (auto split: sum.splits if_splits)
qed

lemma for_clauses_zeros:
  "for_clauses F idx ch a = Inr (Completed ch' a')
     \<Longrightarrow> zeros a' \<le> zeros a \<and> (ch' \<longrightarrow> ch \<or> zeros a' < zeros a)"
proof (induction idx arbitrary: ch a)
  case Nil
  then show ?case by simp
next
  case (Cons i rest)
  from Cons.prems obtain clause where cl: "clause_at F i = Inr clause"
    by (auto split: sum.splits)
  from Cons.prems cl obtain s un where sc: "scan_lits a clause [] = Inr (s, un)"
    by (auto split: sum.splits)
  have un0: "list_all (\<lambda>l. assigns_at a (abs l) = Inr 0) un"
    using scan_lits_unassigned [OF sc] by simp
  show ?case
  proof (cases "\<not> s \<and> un \<noteq> [] \<and> length un = 1")
    case False
    then have "for_clauses F rest ch a = Inr (Completed ch' a')"
      using Cons.prems cl sc by (auto split: if_splits)
    then show ?thesis by (rule Cons.IH)
  next
    case True
    then obtain lit where un: "un = [lit]" by (cases un) auto
    with un0 have rd: "assigns_at a (abs lit) = Inr 0" by simp
    define a1 where "a1 = a[nat (abs lit) := (if lit > 0 then 1 else - 1)]"
    have wr: "assigns_set a (abs lit) (if lit > 0 then 1 else - 1) = Inr a1"
      using rd by (auto simp: assigns_at_def assigns_set_def a1_def split: if_splits)
    have less: "zeros a1 < zeros a"
      unfolding a1_def using rd
      by (intro zeros_update_less) (auto simp: assigns_at_def split: if_splits)
    have "for_clauses F rest True a1 = Inr (Completed ch' a')"
      using Cons.prems cl sc True un wr by (simp add: Let_def)
    from Cons.IH [OF this] less show ?thesis by auto
  qed
qed

text \<open>
  \<^verbatim>\<open>DPLLSolver::propagate\<close> (lines 20-69): passes over the clauses \<open>0 .. numClauses - 1\<close>
  until a pass changes nothing (\<^verbatim>\<open>return true\<close>) or a pass meets a conflict
  (\<^verbatim>\<open>return false\<close>). The result carries the assignment vector as the call leaves it.
\<close>

function propagate :: "Formula \<Rightarrow> int list \<Rightarrow> error + (bool \<times> int list)" where
  "propagate F a =
     (case for_clauses F [0 .. numClauses F - 1] False a of
        Inl e \<Rightarrow> Inl e
      | Inr (Conflict a') \<Rightarrow> Inr (False, a')
      | Inr (Completed changed a') \<Rightarrow>
          if changed then propagate F a' else Inr (True, a'))"
  by pat_completeness auto
termination
proof (relation "measure (\<lambda>(F, a). zeros a)")
  show "wf (measure (\<lambda>(F, a). zeros a))" by simp
next
  fix F a x2 changed a'
  assume "for_clauses F [0 .. numClauses F - 1] False a = Inr x2"
    and "x2 = Completed changed a'" and "changed"
  then show "((F, a'), (F, a)) \<in> measure (\<lambda>(F, a). zeros a)"
    using for_clauses_zeros [of F "[0 .. numClauses F - 1]" False a changed a'] by simp
qed

declare propagate.simps [simp del]

text \<open>
  What a run of the propagator does to the assignment vector: a sequence of writes, each
  of 1 or -1 to an entry that reads 0 at the moment of the write.
\<close>

inductive extends :: "int list \<Rightarrow> int list \<Rightarrow> bool" where
  ext_refl: "extends a a"
| ext_assign: "extends a b \<Longrightarrow> i < length b \<Longrightarrow> b ! i = 0 \<Longrightarrow> v = 1 \<or> v = - 1
           \<Longrightarrow> extends a (b[i := v])"

fun pass_assigns :: "pass \<Rightarrow> int list" where
  "pass_assigns (Conflict a) = a"
| "pass_assigns (Completed changed a) = a"

lemma extends_trans: "extends b c \<Longrightarrow> extends a b \<Longrightarrow> extends a c"
  by (induction rule: extends.induct) (auto intro: extends.intros)

lemma extends_zeros: "extends a b \<Longrightarrow> zeros b \<le> zeros a"
proof (induction rule: extends.induct)
  case (ext_refl a)
  show ?case by simp
next
  case (ext_assign a b i v)
  have "zeros (b[i := v]) \<le> zeros b"
    using ext_assign.hyps(4) by (intro zeros_update_le) auto
  with ext_assign.IH show ?case by simp
qed

lemma extends_length: "extends a b \<Longrightarrow> length b = length a"
  by (induction rule: extends.induct) auto

lemma extends_keeps: "extends a b \<Longrightarrow> i < length a \<Longrightarrow> a ! i \<noteq> 0 \<Longrightarrow> b ! i = a ! i"
proof (induction rule: extends.induct)
  case (ext_refl a)
  show ?case by simp
next
  case (ext_assign a b j v)
  then show ?case by (cases "i = j") auto
qed

lemma for_clauses_extends:
  "for_clauses F idx ch a = Inr p \<Longrightarrow> extends a (pass_assigns p)"
proof (induction idx arbitrary: ch a)
  case Nil
  then show ?case by (auto intro: extends.ext_refl)
next
  case (Cons i rest)
  from Cons.prems obtain clause where cl: "clause_at F i = Inr clause"
    by (auto split: sum.splits)
  from Cons.prems cl obtain s un where sc: "scan_lits a clause [] = Inr (s, un)"
    by (auto split: sum.splits)
  have un0: "list_all (\<lambda>l. assigns_at a (abs l) = Inr 0) un"
    using scan_lits_unassigned [OF sc] by simp
  consider (conflict) "\<not> s" "un = []"
    | (unit) lit where "\<not> s" "un = [lit]"
    | (skip) "s \<or> (un \<noteq> [] \<and> length un \<noteq> 1)"
    by (cases un) (auto simp: length_Suc_conv)
  then show ?case
  proof cases
    case conflict
    then have "p = Conflict a" using Cons.prems cl sc by simp
    then show ?thesis by (simp add: extends.ext_refl)
  next
    case skip
    then have "for_clauses F rest ch a = Inr p"
      using Cons.prems cl sc by (auto split: if_splits)
    then show ?thesis by (rule Cons.IH)
  next
    case unit
    with un0 have rd: "assigns_at a (abs lit) = Inr 0" by simp
    define a1 where "a1 = a[nat (abs lit) := (if lit > 0 then 1 else - 1)]"
    have wr: "assigns_set a (abs lit) (if lit > 0 then 1 else - 1) = Inr a1"
      using rd by (auto simp: assigns_at_def assigns_set_def a1_def split: if_splits)
    have ext: "extends a a1"
      unfolding a1_def using rd
      by (intro extends.ext_assign extends.ext_refl) (auto simp: assigns_at_def split: if_splits)
    have "for_clauses F rest True a1 = Inr p"
      using Cons.prems cl sc unit wr by (simp add: Let_def)
    from Cons.IH [OF this] ext show ?thesis by (rule extends_trans)
  qed
qed

lemma propagate_extends: "propagate F a = Inr (r, a') \<Longrightarrow> extends a a'"
proof (induction F a rule: propagate.induct)
  case (1 F a)
  from "1.prems" obtain p where p: "for_clauses F [0 .. numClauses F - 1] False a = Inr p"
    by (subst (asm) propagate.simps) (auto split: sum.splits)
  have ea: "extends a (pass_assigns p)" using p by (rule for_clauses_extends)
  show ?case
  proof (cases p)
    case (Conflict b)
    with "1.prems" p ea show ?thesis by (subst (asm) propagate.simps) auto
  next
    case (Completed changed b)
    show ?thesis
    proof (cases changed)
      case True
      with "1.prems" p Completed have "propagate F b = Inr (r, a')"
        by (subst (asm) propagate.simps) auto
      from "1.IH" [OF p Completed True this] ea Completed show ?thesis
        by (auto intro: extends_trans)
    next
      case False
      with "1.prems" p ea Completed show ?thesis by (subst (asm) propagate.simps) auto
    qed
  qed
qed

section \<open>The search\<close>

text \<open>
  The completeness check of \<^verbatim>\<open>DPLLSolver::DPLL\<close> (lines 76-80):
  \<^verbatim>\<open>allAssigned = allAssigned && this->assigns[i] != 0\<close> for \<open>i\<close> from 1 to \<open>numVariables\<close>.
  The conjunction is short-circuit, so the vector is read only while the flag is true.
\<close>

fun allAssigned_loop :: "int list \<Rightarrow> int list \<Rightarrow> bool \<Rightarrow> error + bool" where
  "allAssigned_loop a [] allAssigned = Inr allAssigned"
| "allAssigned_loop a (i # rest) allAssigned =
     (if allAssigned then
        (case assigns_at a i of
           Inl e \<Rightarrow> Inl e
         | Inr v \<Rightarrow> allAssigned_loop a rest (v \<noteq> 0))
      else allAssigned_loop a rest False)"

definition allAssigned :: "Formula \<Rightarrow> int list \<Rightarrow> error + bool" where
  "allAssigned F a = allAssigned_loop a [1 .. numVariables F] True"

text \<open>
  \<^verbatim>\<open>DPLLSolver::pickUnassigned\<close> (lines 98-105): the lowest index from 1 to
  \<open>numVariables\<close> whose entry reads 0, or \<open>-1\<close> when there is none.
\<close>

fun pickUnassigned_loop :: "int list \<Rightarrow> int list \<Rightarrow> error + int" where
  "pickUnassigned_loop a [] = Inr (- 1)"
| "pickUnassigned_loop a (i # rest) =
     (case assigns_at a i of
        Inl e \<Rightarrow> Inl e
      | Inr v \<Rightarrow> if v = 0 then Inr i else pickUnassigned_loop a rest)"

definition pickUnassigned :: "Formula \<Rightarrow> int list \<Rightarrow> error + int" where
  "pickUnassigned F a = pickUnassigned_loop a [1 .. numVariables F]"

text \<open>
  \<^verbatim>\<open>DPLLSolver::DPLL\<close> (lines 71-96). The result is the returned boolean together with the
  assignment vector as the call leaves it. The only writes that undo anything are the
  overwrites of the branched variable (lines 90 and 94).
\<close>

function DPLL :: "Formula \<Rightarrow> int list \<Rightarrow> error + (bool \<times> int list)" where
  "DPLL F a =
     (case propagate F a of
        Inl e \<Rightarrow> Inl e
      | Inr (result, a1) \<Rightarrow>
          if \<not> result then Inr (False, a1)
          else
            (case allAssigned F a1 of
               Inl e \<Rightarrow> Inl e
             | Inr complete \<Rightarrow>
                 if complete then Inr (True, a1)
                 else
                   (case pickUnassigned F a1 of
                      Inl e \<Rightarrow> Inl e
                    | Inr var \<Rightarrow>
                        (case assigns_set a1 (abs var) 1 of
                           Inl e \<Rightarrow> Inl e
                         | Inr a2 \<Rightarrow>
                             (case DPLL F a2 of
                                Inl e \<Rightarrow> Inl e
                              | Inr (r1, a3) \<Rightarrow>
                                  if r1 then Inr (True, a3)
                                  else
                                    (case assigns_set a3 (abs var) (- 1) of
                                       Inl e \<Rightarrow> Inl e
                                     | Inr a4 \<Rightarrow>
                                         (case DPLL F a4 of
                                            Inl e \<Rightarrow> Inl e
                                          | Inr (r2, a5) \<Rightarrow>
                                              if r2 then Inr (True, a5)
                                              else
                                                (case assigns_set a5 (abs var) 0 of
                                                   Inl e \<Rightarrow> Inl e
                                                 | Inr a6 \<Rightarrow> Inr (False, a6)))))))))"
  by pat_completeness auto

lemma allAssigned_loop_False: "allAssigned_loop a idx False = Inr False"
  by (induction idx) auto

lemma pick_after_incomplete:
  "allAssigned_loop a idx True = Inr False \<Longrightarrow> pickUnassigned_loop a idx = Inr v
     \<Longrightarrow> v \<in> set idx \<and> assigns_at a v = Inr 0"
proof (induction idx)
  case Nil
  then show ?case by simp
next
  case (Cons i rest)
  then show ?case by (auto split: sum.splits if_splits simp: allAssigned_loop_False)
qed

lemma pickUnassigned_unassigned:
  assumes "allAssigned F a = Inr False" and "pickUnassigned F a = Inr v"
  shows "1 \<le> v \<and> v \<le> numVariables F \<and> assigns_at a v = Inr 0"
  using pick_after_incomplete [of a "[1 .. numVariables F]" v] assms
  by (auto simp: allAssigned_def pickUnassigned_def)

lemma decide_zeros:
  assumes "assigns_at a v = Inr 0" and "1 \<le> v" and "assigns_set a (abs v) 1 = Inr b"
  shows "zeros b < zeros a"
  using assms
  by (auto simp: assigns_at_def assigns_set_def split: if_splits intro!: zeros_update_less)

lemma assigns_set_zeros_le: "assigns_set a i v = Inr b \<Longrightarrow> v \<noteq> 0 \<Longrightarrow> zeros b \<le> zeros a"
  by (auto simp: assigns_set_def split: if_splits intro!: zeros_update_le)

lemma assigns_set_zeros_Suc: "assigns_set a i v = Inr b \<Longrightarrow> zeros b \<le> Suc (zeros a)"
  by (auto simp: assigns_set_def split: if_splits intro!: zeros_update_Suc)

lemma DPLL_zeros_partial:
  "DPLL_dom (F, a) \<Longrightarrow> DPLL F a = Inr (r, a') \<Longrightarrow> zeros a' \<le> zeros a"
proof (induction F a arbitrary: r a' rule: DPLL.pinduct)
  case (1 F a)
  note eq = "1.prems" [unfolded DPLL.psimps [OF "1.hyps"]]
  from eq obtain res a1 where pr: "propagate F a = Inr (res, a1)"
    by (auto split: sum.splits)
  have z1: "zeros a1 \<le> zeros a" using propagate_extends [OF pr] by (rule extends_zeros)
  show ?case
  proof (cases "res")
    case False
    with eq pr z1 show ?thesis by auto
  next
    case True
    from eq pr True obtain complete where al: "allAssigned F a1 = Inr complete"
      by (auto split: sum.splits)
    show ?thesis
    proof (cases complete)
      case True
      with eq pr \<open>res\<close> al z1 show ?thesis by auto
    next
      case False
      from eq pr \<open>res\<close> al False obtain var a2 r1 a3
        where pk: "pickUnassigned F a1 = Inr var"
          and w1: "assigns_set a1 (abs var) 1 = Inr a2"
          and d1: "DPLL F a2 = Inr (r1, a3)"
        by (auto split: sum.splits)
      have al': "allAssigned F a1 = Inr False" using al False by simp
      have z2: "zeros a2 < zeros a1"
        using pickUnassigned_unassigned [OF al' pk] w1 by (auto intro: decide_zeros)
      have z3: "zeros a3 \<le> zeros a2"
        using "1.IH"(1) [OF pr refl _ al False pk w1 d1] True by simp
      show ?thesis
      proof (cases r1)
        case True
        with eq pr \<open>res\<close> al False pk w1 d1 have "a' = a3" by auto
        with z1 z2 z3 show ?thesis by simp
      next
        case r1: False
        from eq pr \<open>res\<close> al False pk w1 d1 r1 obtain a4 r2 a5
          where w2: "assigns_set a3 (abs var) (- 1) = Inr a4"
            and d2: "DPLL F a4 = Inr (r2, a5)"
          by (auto split: sum.splits)
        have z4: "zeros a4 \<le> zeros a3" using w2 by (rule assigns_set_zeros_le) simp
        have z5: "zeros a5 \<le> zeros a4"
          using "1.IH"(2) [OF pr refl _ al False pk w1 d1 refl r1 w2 d2] True by simp
        show ?thesis
        proof (cases r2)
          case True
          with eq pr \<open>res\<close> al False pk w1 d1 r1 w2 d2 have "a' = a5" by auto
          with z1 z2 z3 z4 z5 show ?thesis by simp
        next
          case r2: False
          from eq pr \<open>res\<close> al False pk w1 d1 r1 w2 d2 r2
          have w3: "assigns_set a5 (abs var) 0 = Inr a'"
            by (auto split: sum.splits)
          have "zeros a' \<le> Suc (zeros a5)" using w3 by (rule assigns_set_zeros_Suc)
          with z1 z2 z3 z4 z5 show ?thesis by simp
        qed
      qed
    qed
  qed
qed

text \<open>
  The recursion of \<open>DPLL\<close> is well-founded at every argument: both recursive calls are
  entered with fewer entries that read 0 than the calling one.
\<close>

lemma DPLL_total: "All DPLL_dom"
proof (rule "DPLL.termination" [of "measure (\<lambda>(F, a). zeros a)"])
  show "wf (measure (\<lambda>(F, a). zeros a))" by simp
next
  fix F a b x y ba bb bc
  assume pr: "propagate F a = Inr b" "(x, y) = b"
    and al: "allAssigned F y = Inr ba" "\<not> ba"
    and pk: "pickUnassigned F y = Inr bb" and w1: "assigns_set y \<bar>bb\<bar> 1 = Inr bc"
  have "zeros y \<le> zeros a"
    using pr propagate_extends [of F a x y] by (auto intro: extends_zeros)
  moreover have "zeros bc < zeros y"
    using pickUnassigned_unassigned [of F y bb] al pk w1 by (auto intro: decide_zeros)
  ultimately show "((F, bc), (F, a)) \<in> measure (\<lambda>(F, a). zeros a)" by simp
next
  fix F a b x y ba bb bc bd xa ya be
  assume pr: "propagate F a = Inr b" "(x, y) = b"
    and al: "allAssigned F y = Inr ba" "\<not> ba"
    and pk: "pickUnassigned F y = Inr bb" and w1: "assigns_set y \<bar>bb\<bar> 1 = Inr bc"
    and d1: "DPLL F bc = Inr bd" "(xa, ya) = bd"
    and w2: "assigns_set ya \<bar>bb\<bar> (- 1) = Inr be"
    and dom: "DPLL_dom (F, bc)"
  have "zeros y \<le> zeros a"
    using pr propagate_extends [of F a x y] by (auto intro: extends_zeros)
  moreover have "zeros bc < zeros y"
    using pickUnassigned_unassigned [of F y bb] al pk w1 by (auto intro: decide_zeros)
  moreover have "zeros ya \<le> zeros bc"
    using DPLL_zeros_partial [OF dom, of xa ya] d1 by simp
  moreover have "zeros be \<le> zeros ya"
    using w2 by (rule assigns_set_zeros_le) simp
  ultimately show "((F, be), (F, a)) \<in> measure (\<lambda>(F, a). zeros a)" by simp
qed

termination DPLL
  by (rule DPLL_total)

declare DPLL.simps [simp del]

section \<open>The solver object\<close>

text \<open>
  \<^verbatim>\<open>class DPLLSolver\<close> (core/DPLLSolver.h) holds the formula, the vector \<open>assigns\<close> and two
  vectors \<open>trail\<close> and \<open>decisionLevel\<close> that no method of the class reads or writes.
  The constructor (lines 6-7) sizes \<open>assigns\<close> to \<open>numVariables + 1\<close> zeros. The sum is
  computed in \<^verbatim>\<open>int\<close>: at the greatest \<^verbatim>\<open>int\<close> it overflows, and the size that reaches the
  vector is refused like a negative one.
\<close>

record DPLLSolver =
  formula :: Formula
  assigns :: "int list"
  trail :: "int list"
  decisionLevel :: "int list"

definition DPLLSolver_new :: "Formula \<Rightarrow> error + DPLLSolver" where
  "DPLLSolver_new f =
     (if numVariables f + 1 < 0 \<or> INT_MAX < numVariables f + 1 then Inl LengthError
      else Inr \<lparr>formula = f, assigns = replicate (nat (numVariables f + 1)) 0,
                trail = [], decisionLevel = []\<rparr>)"

text \<open>
  \<^verbatim>\<open>DPLLSolver::solve\<close> (lines 9-18): entries 1 to \<open>numVariables\<close> are set to 0, then the
  search runs. The local \<^verbatim>\<open>Formula formula;\<close> of line 10 is never used.
\<close>

fun reset_loop :: "int list \<Rightarrow> int list \<Rightarrow> error + int list" where
  "reset_loop a [] = Inr a"
| "reset_loop a (i # rest) =
     (case assigns_set a i 0 of
        Inl e \<Rightarrow> Inl e
      | Inr a' \<Rightarrow> reset_loop a' rest)"

definition solve :: "DPLLSolver \<Rightarrow> error + (bool \<times> DPLLSolver)" where
  "solve s =
     (case reset_loop (assigns s) [1 .. numVariables (formula s)] of
        Inl e \<Rightarrow> Inl e
      | Inr a0 \<Rightarrow>
          (case DPLL (formula s) a0 of
             Inl e \<Rightarrow> Inl e
           | Inr (result, a') \<Rightarrow> Inr (result, s\<lparr>assigns := a'\<rparr>)))"

section \<open>The parser\<close>

text \<open>
  A \<^verbatim>\<open>std::stringstream\<close> over one line, as far as \<^verbatim>\<open>operator>>\<close> uses it: the characters
  not yet read and the fail bit. Once the fail bit is set every further extraction leaves
  its target and the stream as they are. An extraction that finds nothing but white space
  up to the end of the line sets the fail bit and leaves its target as it is, too.
\<close>

record sstream =
  buf :: string
  failed :: bool

definition isspace :: "char \<Rightarrow> bool" where
  "isspace c = (c = CHR '' '' \<or> c = CHR 0x09 \<or> c = CHR 0x0A \<or> c = CHR 0x0B
                 \<or> c = CHR 0x0C \<or> c = CHR 0x0D)"

definition isdigit :: "char \<Rightarrow> bool" where
  "isdigit c = (48 \<le> (of_char c :: nat) \<and> (of_char c :: nat) \<le> 57)"

definition digits_val :: "string \<Rightarrow> int" where
  "digits_val ds = foldl (\<lambda>n c. 10 * n + (int (of_char c) - 48)) 0 ds"

text \<open>
  \<^verbatim>\<open>stream >> std::string\<close>: leading white space is skipped and the characters up to the
  next white space are taken.
\<close>

definition read_word :: "sstream \<Rightarrow> string \<Rightarrow> string \<times> sstream" where
  "read_word s old =
     (if failed s then (old, s)
      else
        (let b = dropWhile isspace (buf s) in
         if b = [] then (old, \<lparr>buf = [], failed = True\<rparr>)
         else (takeWhile (\<lambda>c. \<not> isspace c) b,
               \<lparr>buf = dropWhile (\<lambda>c. \<not> isspace c) b, failed = False\<rparr>)))"

text \<open>
  \<^verbatim>\<open>stream >> int\<close>: leading white space is skipped, then an optional sign and decimal
  digits are taken. When characters are left but no digit is found the target becomes 0
  and the fail bit is set; a number outside the range of a 32-bit \<^verbatim>\<open>int\<close> stores the
  nearest bound and sets the fail bit.
\<close>

definition read_int :: "sstream \<Rightarrow> int \<Rightarrow> int \<times> sstream" where
  "read_int s old =
     (if failed s then (old, s)
      else
        (let b = dropWhile isspace (buf s);
             neg = (b \<noteq> [] \<and> hd b = CHR ''-'');
             b1 = (if b \<noteq> [] \<and> (hd b = CHR ''-'' \<or> hd b = CHR ''+'') then tl b else b);
             ds = takeWhile isdigit b1;
             rest = dropWhile isdigit b1;
             n = (if neg then - digits_val ds else digits_val ds)
         in if b = [] then (old, \<lparr>buf = [], failed = True\<rparr>)
            else if ds = [] then (0, \<lparr>buf = rest, failed = True\<rparr>)
            else if n > INT_MAX then (INT_MAX, \<lparr>buf = rest, failed = True\<rparr>)
            else if n < INT_MIN then (INT_MIN, \<lparr>buf = rest, failed = True\<rparr>)
            else (n, \<lparr>buf = rest, failed = False\<rparr>)))"

lemma read_int_consumes:
  assumes "read_int s old = (v, s')" and "\<not> failed s'"
  shows "length (buf s') < length (buf s)"
proof -
  define b where "b = dropWhile isspace (buf s)"
  define b1 where "b1 = (if b \<noteq> [] \<and> (hd b = CHR ''-'' \<or> hd b = CHR ''+'') then tl b else b)"
  have nf: "\<not> failed s" using assms by (auto simp: read_int_def)
  have ds: "takeWhile isdigit b1 \<noteq> []" and s': "buf s' = dropWhile isdigit b1"
    using assms nf unfolding read_int_def b_def b1_def Let_def
    by (auto split: if_splits)
  have "length (dropWhile isdigit b1) < length b1"
    using ds by (cases b1) (auto simp: le_imp_less_Suc length_dropWhile_le split: if_splits)
  moreover have "length b1 \<le> length b" by (simp add: b1_def)
  moreover have "length b \<le> length (buf s)" by (simp add: b_def length_dropWhile_le)
  ultimately show ?thesis using s' by simp
qed

text \<open>
  \<^verbatim>\<open>CNFParser::parseClause\<close> (lines 47-58):
  \<^verbatim>\<open>while (lineStream >> p) { if (p == 0) break; out.push_back(p); }\<close>
  The variable \<open>p\<close> is not initialised; what it holds before a read is never used, since
  the loop ends at the first read that fails.
\<close>

function parseClause_loop :: "sstream \<Rightarrow> int list \<Rightarrow> int list" where
  "parseClause_loop s out =
     (case read_int s 0 of
        (p, s') \<Rightarrow>
          if failed s' then out
          else if p = 0 then out
          else parseClause_loop s' (out @ [p]))"
  by pat_completeness auto
termination
proof (relation "measure (\<lambda>(s, out). length (buf s))")
  show "wf (measure (\<lambda>(s, out). length (buf s)))" by simp
next
  fix s :: sstream and out :: "int list" and p s'
  assume "(p, s') = read_int s 0" and "\<not> failed s'"
  then have "length (buf s') < length (buf s)"
    using read_int_consumes [of s 0 p s'] by simp
  then show "((s', out @ [p]), (s, out)) \<in> measure (\<lambda>(s, out). length (buf s))"
    by simp
qed

declare parseClause_loop.simps [simp del]

definition parseClause :: "string \<Rightarrow> int list" where
  "parseClause line = parseClause_loop \<lparr>buf = line, failed = False\<rparr> []"

text \<open>
  \<^verbatim>\<open>CNFParser::parseHeader\<close> (lines 60-69). The two integers are the reference parameters
  \<open>numVars\<close> and \<open>numClauses\<close> (here \<open>numCls\<close>, the name being a field of the record): the
  result gives their values after the call, and the text written to the standard output.
  A header whose first two words are not \<^verbatim>\<open>p\<close> and \<^verbatim>\<open>cnf\<close> prints a message and nothing
  else (the source carries the comment \<^verbatim>\<open>// TODO: error\<close> at this place).
\<close>

definition parseHeader :: "string \<Rightarrow> int \<Rightarrow> int \<Rightarrow> int \<times> int \<times> string" where
  "parseHeader line numVars numCls =
     (case read_word \<lparr>buf = line, failed = False\<rparr> [] of
        (p, s1) \<Rightarrow>
          (case read_word s1 [] of
             (cnf, s2) \<Rightarrow>
               (case read_int s2 numVars of
                  (numVars', s3) \<Rightarrow>
                    (case read_int s3 numCls of
                       (numCls', s4) \<Rightarrow>
                         (numVars', numCls',
                          if p \<noteq> ''p'' \<or> cnf \<noteq> ''cnf'' then ''Invalid header'' else [])))))"

text \<open>\<^verbatim>\<open>line.rfind(prefix, 0) == 0\<close>: the line starts with the prefix.\<close>

definition starts_with :: "string \<Rightarrow> string \<Rightarrow> bool" where
  "starts_with prefix line = (take (length prefix) line = prefix)"

definition isSkippable :: "string \<Rightarrow> bool" where
  "isSkippable line = (starts_with ''c'' line \<or> line = [])"

text \<open>
  The lines that successive calls of \<^verbatim>\<open>std::getline\<close> deliver: the text between line
  feeds, without a last empty line after a final line feed.
\<close>

fun getlines :: "string \<Rightarrow> string list" where
  "getlines [] = []"
| "getlines (c # cs) =
     (if c = CHR 0x0A then [] # getlines cs
      else (case getlines cs of [] \<Rightarrow> [[c]] | l # ls \<Rightarrow> (c # l) # ls))"

text \<open>
  The loop of \<^verbatim>\<open>CNFParser::parse\<close> (lines 27-42). The call of line 34 passes
  \<open>formula.numClauses\<close> for the parameter \<open>numVars\<close> of \<open>parseHeader\<close> and
  \<open>formula.numVariables\<close> for its parameter \<open>numClauses\<close>. A clause is stored only when
  it is not empty (line 39).
\<close>

fun parse_loop :: "string list \<Rightarrow> bool \<Rightarrow> Formula \<Rightarrow> string \<Rightarrow> Formula \<times> string" where
  "parse_loop [] headerFound f out = (f, out)"
| "parse_loop (line # rest) headerFound f out =
     (if isSkippable line then parse_loop rest headerFound f out
      else if \<not> headerFound \<and> starts_with ''p '' line then
        (case parseHeader line (numClauses f) (numVariables f) of
           (nv, nc, msg) \<Rightarrow>
             parse_loop rest True (f\<lparr>numClauses := nv, numVariables := nc\<rparr>) (out @ msg))
      else
        (let clause = parseClause line in
         if clause \<noteq> [] then parse_loop rest headerFound (f\<lparr>clauses := clauses f @ [clause]\<rparr>) out
         else parse_loop rest headerFound f out))"

text \<open>
  \<^verbatim>\<open>CNFParser::parse\<close> (lines 17-45). The file is its text, or \<open>None\<close> when it cannot be
  opened: the source goes on in that case (\<^verbatim>\<open>// TODO: tratar erro\<close>) and reads no line.
  \<^verbatim>\<open>Formula formula;\<close> leaves the two integers uninitialised: \<open>v0\<close> and \<open>c0\<close> stand for
  whatever \<open>numVariables\<close> and \<open>numClauses\<close> hold before the header is read.
\<close>

definition parse :: "int \<Rightarrow> int \<Rightarrow> string option \<Rightarrow> Formula \<times> string" where
  "parse v0 c0 file =
     parse_loop (case file of None \<Rightarrow> [] | Some text \<Rightarrow> getlines text) False
       \<lparr>numVariables = v0, numClauses = c0, clauses = []\<rparr> []"

section \<open>The program\<close>

text \<open>
  \<^verbatim>\<open>main\<close> of sat/src/main.cpp: parse, construct the solver, print the two counts, solve
  and print the verdict. The standard output is a list of items in the order written.
\<close>

datatype item = Text string | Number int

definition main :: "int \<Rightarrow> int \<Rightarrow> string option \<Rightarrow> error + item list" where
  "main v0 c0 file =
     (case parse v0 c0 file of
        (f, msg) \<Rightarrow>
          (case DPLLSolver_new f of
             Inl e \<Rightarrow> Inl e
           | Inr solver \<Rightarrow>
               (case solve solver of
                  Inl e \<Rightarrow> Inl e
                | Inr (result, solver') \<Rightarrow>
                    Inr [Text msg, Number (numClauses f), Text [CHR 0x0A],
                         Number (numVariables f), Text [CHR 0x0A],
                         Text ''Result: '', Text (if result then ''SAT'' else ''UNSAT''),
                         Text '';''])))"

section \<open>Models of a formula\<close>

text \<open>
  A literal evaluates true under an assignment vector by the test of line 35 of
  \<^verbatim>\<open>propagate\<close>; a clause is satisfied when one of its literals does, a formula when all
  its clauses are.
\<close>

definition lit_true :: "int list \<Rightarrow> int \<Rightarrow> bool" where
  "lit_true a lit =
     ((lit > 0 \<and> assigns_at a (abs lit) = Inr 1) \<or> (lit < 0 \<and> assigns_at a (abs lit) = Inr (- 1)))"

definition clause_true :: "int list \<Rightarrow> int list \<Rightarrow> bool" where
  "clause_true a clause = list_ex (lit_true a) clause"

definition satisfies :: "int list \<Rightarrow> Formula \<Rightarrow> bool" where
  "satisfies a F = list_all (clause_true a) (clauses F)"

text \<open>Every variable from 1 to \<open>numVariables\<close> holds 1 (true) or -1 (false).\<close>

definition complete :: "int list \<Rightarrow> Formula \<Rightarrow> bool" where
  "complete a F =
     list_all (\<lambda>v. assigns_at a v = Inr 1 \<or> assigns_at a v = Inr (- 1)) [1 .. numVariables F]"

text \<open>
  Brute force: the \<open>2 ^ n\<close> total assignments of \<open>n\<close> variables, each as a vector with the
  unused entry 0 in front, and the search for one among them that satisfies the formula.
\<close>

fun total_assignments :: "nat \<Rightarrow> int list list" where
  "total_assignments 0 = [[]]"
| "total_assignments (Suc n) =
     concat (map (\<lambda>vs. [1 # vs, (- 1) # vs]) (total_assignments n))"

definition brute_force :: "Formula \<Rightarrow> bool" where
  "brute_force F =
     list_ex (\<lambda>vs. satisfies (0 # vs) F) (total_assignments (nat (numVariables F)))"

section \<open>Runs of the search\<close>

text \<open>
  The five ways a call of \<open>DPLL\<close> returns a result, read off its definition: a conflict
  in propagation, a complete assignment, success of the first branch, success of the
  second branch, and failure of both. Every result of \<open>DPLL\<close> arises in one of them.
\<close>

inductive DPLL_run :: "Formula \<Rightarrow> int list \<Rightarrow> bool \<Rightarrow> int list \<Rightarrow> bool" where
  run_conflict: "propagate F a = Inr (False, a1) \<Longrightarrow> DPLL_run F a False a1"
| run_complete: "propagate F a = Inr (True, a1) \<Longrightarrow> allAssigned F a1 = Inr True
      \<Longrightarrow> DPLL_run F a True a1"
| run_first: "propagate F a = Inr (True, a1) \<Longrightarrow> allAssigned F a1 = Inr False
      \<Longrightarrow> pickUnassigned F a1 = Inr var \<Longrightarrow> assigns_set a1 (abs var) 1 = Inr a2
      \<Longrightarrow> DPLL_run F a2 True a3 \<Longrightarrow> DPLL_run F a True a3"
| run_second: "propagate F a = Inr (True, a1) \<Longrightarrow> allAssigned F a1 = Inr False
      \<Longrightarrow> pickUnassigned F a1 = Inr var \<Longrightarrow> assigns_set a1 (abs var) 1 = Inr a2
      \<Longrightarrow> DPLL_run F a2 False a3 \<Longrightarrow> assigns_set a3 (abs var) (- 1) = Inr a4
      \<Longrightarrow> DPLL_run F a4 True a5 \<Longrightarrow> DPLL_run F a True a5"
| run_exhausted: "propagate F a = Inr (True, a1) \<Longrightarrow> allAssigned F a1 = Inr False
      \<Longrightarrow> pickUnassigned F a1 = Inr var \<Longrightarrow> assigns_set a1 (abs var) 1 = Inr a2
      \<Longrightarrow> DPLL_run F a2 False a3 \<Longrightarrow> assigns_set a3 (abs var) (- 1) = Inr a4
      \<Longrightarrow> DPLL_run F a4 False a5 \<Longrightarrow> assigns_set a5 (abs var) 0 = Inr a6
      \<Longrightarrow> DPLL_run F a False a6"

lemma DPLL_run: "DPLL F a = Inr (r, a') \<Longrightarrow> DPLL_run F a r a'"
proof (induction F a arbitrary: r a' rule: DPLL.induct)
  case (1 F a)
  note eq = "1.prems" [unfolded DPLL.simps [of F a]]
  from eq obtain res a1 where pr: "propagate F a = Inr (res, a1)"
    by (auto split: sum.splits)
  show ?case
  proof (cases "res")
    case False
    with eq pr show ?thesis by (auto intro: DPLL_run.run_conflict)
  next
    case True
    from eq pr True obtain cpl where al: "allAssigned F a1 = Inr cpl"
      by (auto split: sum.splits)
    show ?thesis
    proof (cases cpl)
      case True
      with eq pr \<open>res\<close> al show ?thesis by (auto intro: DPLL_run.run_complete)
    next
      case False
      from eq pr \<open>res\<close> al False obtain var a2 r1 a3
        where pk: "pickUnassigned F a1 = Inr var"
          and w1: "assigns_set a1 (abs var) 1 = Inr a2"
          and d1: "DPLL F a2 = Inr (r1, a3)"
        by (auto split: sum.splits)
      have run1: "DPLL_run F a2 r1 a3"
        using "1.IH"(1) [OF pr refl _ al False pk w1 d1] True by simp
      show ?thesis
      proof (cases r1)
        case True
        with eq pr \<open>res\<close> al False pk w1 d1 have "r = True" "a' = a3" by auto
        with pr \<open>res\<close> al False pk w1 run1 True show ?thesis
          by (auto intro: DPLL_run.run_first)
      next
        case r1: False
        from eq pr \<open>res\<close> al False pk w1 d1 r1 obtain a4 r2 a5
          where w2: "assigns_set a3 (abs var) (- 1) = Inr a4"
            and d2: "DPLL F a4 = Inr (r2, a5)"
          by (auto split: sum.splits)
        have run2: "DPLL_run F a4 r2 a5"
          using "1.IH"(2) [OF pr refl _ al False pk w1 d1 refl r1 w2 d2] True by simp
        show ?thesis
        proof (cases r2)
          case True
          with eq pr \<open>res\<close> al False pk w1 d1 r1 w2 d2 have "r = True" "a' = a5" by auto
          with pr \<open>res\<close> al False pk w1 run1 r1 w2 run2 True show ?thesis
            by (auto intro: DPLL_run.run_second)
        next
          case r2: False
          from eq pr \<open>res\<close> al False pk w1 d1 r1 w2 d2 r2
          have w3: "assigns_set a5 (abs var) 0 = Inr a'" and "r = False"
            by (auto split: sum.splits)
          with pr \<open>res\<close> al False pk w1 run1 r1 w2 run2 r2 show ?thesis
            by (auto intro: DPLL_run.run_exhausted)
        qed
      qed
    qed
  qed
qed

text \<open>Every entry of the vector is one of the three values the solver writes.\<close>

definition tristate :: "int list \<Rightarrow> bool" where
  "tristate a = list_all (\<lambda>x. x = - 1 \<or> x = 0 \<or> x = 1) a"

text \<open>
  The number of variables from 1 to \<open>numVariables\<close> that are unassigned (their entry reads
  0), and the number of those that are assigned (it does not).
\<close>

definition unassigned_count :: "Formula \<Rightarrow> int list \<Rightarrow> nat" where
  "unassigned_count F a = length (filter (\<lambda>v. assigns_at a v = Inr 0) [1 .. numVariables F])"

definition assigned_count :: "Formula \<Rightarrow> int list \<Rightarrow> nat" where
  "assigned_count F a = length (filter (\<lambda>v. assigns_at a v \<noteq> Inr 0) [1 .. numVariables F])"

text \<open>
  The recursive calls of \<open>DPLL\<close> (lines 87 and 91): \<open>DPLL_calls F a a'\<close> holds when the
  call entered with the vector \<open>a\<close> calls itself with the vector \<open>a'\<close>. The first call
  is made after propagation succeeded, the assignment was found incomplete and the picked
  variable was set to 1; the second after the first returned false and the variable was
  set to -1.
\<close>

inductive DPLL_calls :: "Formula \<Rightarrow> int list \<Rightarrow> int list \<Rightarrow> bool" where
  call_true: "propagate F a = Inr (True, a1) \<Longrightarrow> allAssigned F a1 = Inr False
      \<Longrightarrow> pickUnassigned F a1 = Inr var \<Longrightarrow> assigns_set a1 (abs var) 1 = Inr a2
      \<Longrightarrow> DPLL_calls F a a2"
| call_false: "propagate F a = Inr (True, a1) \<Longrightarrow> allAssigned F a1 = Inr False
      \<Longrightarrow> pickUnassigned F a1 = Inr var \<Longrightarrow> assigns_set a1 (abs var) 1 = Inr a2
      \<Longrightarrow> DPLL F a2 = Inr (False, a3) \<Longrightarrow> assigns_set a3 (abs var) (- 1) = Inr a4
      \<Longrightarrow> DPLL_calls F a a4"

section \<open>Properties of the propagator and of the search\<close>

lemma scan_lits_False:
  "scan_lits a c un = Inr (False, un')
     \<Longrightarrow> un' = un @ filter (\<lambda>l. assigns_at a (abs l) = Inr 0) c"
proof (induction c arbitrary: un)
  case Nil
  then show ?case by simp
next
  case (Cons lit rest)
  show ?case
    using Cons.prems Cons.IH [of "un @ [lit]"] Cons.IH [of un]
    by (auto split: sum.splits if_splits)
qed

lemma scan_lits_True: "scan_lits a c un = Inr (True, un') \<Longrightarrow> clause_true a c"
proof (induction c arbitrary: un)
  case Nil
  then show ?case by simp
next
  case (Cons lit rest)
  then show ?case
    by (auto simp: clause_true_def lit_true_def split: sum.splits if_splits)
qed

lemma scan_lits_subset: "scan_lits a c un = Inr (s, un') \<Longrightarrow> set un' \<subseteq> set un \<union> set c"
proof (induction c arbitrary: un)
  case Nil
  then show ?case by simp
next
  case (Cons lit rest)
  then show ?case by (fastforce split: sum.splits if_splits)
qed

lemma scan_lits_total:
  "list_all (\<lambda>l. abs l < int (length a)) c \<Longrightarrow> \<exists>s un'. scan_lits a c un = Inr (s, un')"
proof (induction c arbitrary: un)
  case Nil
  then show ?case by auto
next
  case (Cons lit rest)
  then obtain v where rd: "assigns_at a (abs lit) = Inr v"
    by (auto simp: assigns_at_def)
  from Cons.prems have rest: "list_all (\<lambda>l. abs l < int (length a)) rest" by simp
  show ?case
  proof (cases "(lit > 0 \<and> v = 1) \<or> (lit < 0 \<and> v = - 1)")
    case True
    with rd show ?thesis by auto
  next
    case False
    with rd Cons.IH [OF rest, of "if v = 0 then un @ [lit] else un"] show ?thesis
      by auto
  qed
qed

lemma for_clauses_unchanged:
  "for_clauses F idx ch a = Inr (Completed False a') \<Longrightarrow> a' = a \<and> \<not> ch"
proof (induction idx arbitrary: ch a)
  case Nil
  then show ?case by simp
next
  case (Cons i rest)
  then show ?case
    by (fastforce simp: Let_def split: sum.splits if_splits prod.splits)
qed

lemma for_clauses_fixpoint:
  "for_clauses F idx ch a = Inr (Completed False a') \<Longrightarrow> i \<in> set idx
     \<Longrightarrow> \<exists>clause s un. clause_at F i = Inr clause \<and> scan_lits a clause [] = Inr (s, un)
           \<and> (s \<or> 2 \<le> length un)"
proof (induction idx arbitrary: ch a)
  case Nil
  then show ?case by simp
next
  case (Cons j rest)
  from Cons.prems(1) obtain clause where cl: "clause_at F j = Inr clause"
    by (auto split: sum.splits)
  from Cons.prems(1) cl obtain s un where sc: "scan_lits a clause [] = Inr (s, un)"
    by (auto split: sum.splits)
  have skip: "s \<or> (un \<noteq> [] \<and> length un \<noteq> 1)"
  proof (rule ccontr)
    assume "\<not> (s \<or> (un \<noteq> [] \<and> length un \<noteq> 1))"
    then have "\<not> s" and "un = [] \<or> length un = 1" by auto
    then obtain b where "for_clauses F rest True b = Inr (Completed False a')"
      using Cons.prems(1) cl sc by (auto simp: Let_def split: sum.splits if_splits)
    then show False using for_clauses_unchanged by blast
  qed
  then have rest: "for_clauses F rest ch a = Inr (Completed False a')"
    using Cons.prems(1) cl sc by (auto split: if_splits)
  show ?case
  proof (cases "i = j")
    case True
    have "s \<or> 2 \<le> length un" using skip by (cases un) (auto simp: Suc_le_eq)
    with cl sc True show ?thesis by auto
  next
    case False
    with Cons.prems(2) have "i \<in> set rest" by simp
    from Cons.IH [OF rest this] show ?thesis .
  qed
qed

lemma propagate_fixpoint:
  "propagate F a = Inr (True, a')
     \<Longrightarrow> for_clauses F [0 .. numClauses F - 1] False a' = Inr (Completed False a')"
proof (induction F a rule: propagate.induct)
  case (1 F a)
  from "1.prems" obtain p where p: "for_clauses F [0 .. numClauses F - 1] False a = Inr p"
    by (subst (asm) propagate.simps) (auto split: sum.splits)
  show ?case
  proof (cases p)
    case (Conflict b)
    with "1.prems" p show ?thesis by (subst (asm) propagate.simps) auto
  next
    case (Completed changed b)
    show ?thesis
    proof (cases changed)
      case True
      with "1.prems" p Completed have "propagate F b = Inr (True, a')"
        by (subst (asm) propagate.simps) auto
      from "1.IH" [OF p Completed True this] show ?thesis .
    next
      case False
      with "1.prems" p Completed have "b = a'" by (subst (asm) propagate.simps) auto
      moreover have "for_clauses F [0 .. numClauses F - 1] False a = Inr (Completed False b)"
        using p Completed False by simp
      then have "b = a" using for_clauses_unchanged by blast
      ultimately show ?thesis using p Completed False by simp
    qed
  qed
qed

lemma DPLL_run_final:
  "DPLL_run F a r a' \<Longrightarrow> r
     \<Longrightarrow> (\<exists>b. propagate F b = Inr (True, a')) \<and> allAssigned F a' = Inr True"
  by (induction rule: DPLL_run.induct) auto

lemma allAssigned_loop_all:
  "allAssigned_loop a idx True = Inr True \<Longrightarrow> v \<in> set idx
     \<Longrightarrow> \<exists>x. assigns_at a v = Inr x \<and> x \<noteq> 0"
proof (induction idx)
  case Nil
  then show ?case by simp
next
  case (Cons i rest)
  from Cons.prems(1) obtain x where rd: "assigns_at a i = Inr x"
    and rest: "allAssigned_loop a rest (x \<noteq> 0) = Inr True"
    by (auto split: sum.splits)
  have nz: "x \<noteq> 0" using rest allAssigned_loop_False [of a rest] by (cases "x = 0") auto
  show ?case
  proof (cases "v = i")
    case True
    with rd nz show ?thesis by simp
  next
    case False
    with Cons.prems(2) have "v \<in> set rest" by simp
    with Cons.IH rest nz show ?thesis by simp
  qed
qed

lemma tristate_update:
  "tristate a \<Longrightarrow> v = - 1 \<or> v = 0 \<or> v = 1 \<Longrightarrow> tristate (a[i := v])"
  unfolding tristate_def list_all_iff using set_update_subset_insert [of a i v] by auto

lemma extends_tristate: "extends a b \<Longrightarrow> tristate a \<Longrightarrow> tristate b"
  by (induction rule: extends.induct) (auto intro: tristate_update)

lemma assigns_set_length: "assigns_set a i v = Inr b \<Longrightarrow> length b = length a"
  by (auto simp: assigns_set_def split: if_splits)

lemma assigns_set_tristate:
  "assigns_set a i v = Inr b \<Longrightarrow> tristate a \<Longrightarrow> v = - 1 \<or> v = 0 \<or> v = 1 \<Longrightarrow> tristate b"
  by (auto simp: assigns_set_def tristate_update split: if_splits)

lemma DPLL_run_length: "DPLL_run F a r a' \<Longrightarrow> length a' = length a"
  by (induction rule: DPLL_run.induct)
     (auto dest!: propagate_extends extends_length assigns_set_length)

lemma DPLL_run_tristate: "DPLL_run F a r a' \<Longrightarrow> tristate a \<Longrightarrow> tristate a'"
proof (induction rule: DPLL_run.induct)
  case (run_conflict F a a1)
  then show ?case by (auto dest!: propagate_extends intro: extends_tristate)
next
  case (run_complete F a a1)
  then show ?case by (auto dest!: propagate_extends intro: extends_tristate)
next
  case (run_first F a a1 var a2 a3)
  then show ?case
    by (auto dest!: propagate_extends dest: extends_tristate assigns_set_tristate)
next
  case (run_second F a a1 var a2 a3 a4 a5)
  then show ?case
    by (auto dest!: propagate_extends dest: extends_tristate assigns_set_tristate)
next
  case (run_exhausted F a a1 var a2 a3 a4 a5 a6)
  then show ?case
    by (auto dest!: propagate_extends dest: extends_tristate assigns_set_tristate)
qed

lemma scan_lits_no_clause_error: "scan_lits a c un \<noteq> Inl ClauseOutOfRange"
proof (induction c arbitrary: un)
  case Nil
  then show ?case by simp
next
  case (Cons lit rest)
  then show ?case by (auto simp: assigns_at_def split: sum.splits)
qed

lemma for_clauses_in_range:
  "list_all (\<lambda>i. 0 \<le> i \<and> i < int (length (clauses F))) idx
     \<Longrightarrow> for_clauses F idx ch a \<noteq> Inl ClauseOutOfRange"
proof (induction idx arbitrary: ch a)
  case Nil
  then show ?case by simp
next
  case (Cons i rest)
  then show ?case
    using scan_lits_no_clause_error
    by (auto simp: clause_at_def assigns_set_def Let_def split: sum.splits prod.splits)
qed

lemma propagate_in_range:
  "numClauses F \<le> int (length (clauses F)) \<Longrightarrow> propagate F a \<noteq> Inl ClauseOutOfRange"
proof (induction F a rule: propagate.induct)
  case (1 F a)
  have idx: "list_all (\<lambda>i. 0 \<le> i \<and> i < int (length (clauses F))) [0 .. numClauses F - 1]"
    using "1.prems" by (auto simp: list_all_iff)
  show ?case
  proof (cases "for_clauses F [0 .. numClauses F - 1] False a")
    case (Inl e)
    with for_clauses_in_range [OF idx, of False a] show ?thesis
      by (subst propagate.simps) auto
  next
    case (Inr p)
    show ?thesis
    proof (cases p)
      case (Conflict b)
      with Inr show ?thesis by (subst propagate.simps) auto
    next
      case (Completed changed b)
      with Inr "1.IH" [OF Inr Completed] "1.prems" show ?thesis
        by (subst propagate.simps) auto
    qed
  qed
qed

lemma propagate_beyond_range:
  assumes "int (length (clauses F)) < numClauses F"
  shows "propagate F a \<noteq> Inr (True, a')"
proof
  assume "propagate F a = Inr (True, a')"
  then have fp: "for_clauses F [0 .. numClauses F - 1] False a' = Inr (Completed False a')"
    by (rule propagate_fixpoint)
  have "int (length (clauses F)) \<in> set [0 .. numClauses F - 1]" using assms by simp
  from for_clauses_fixpoint [OF fp this] show False by (auto simp: clause_at_def)
qed

lemma reset_loop_result:
  "reset_loop a idx = Inr a'
     \<Longrightarrow> length a' = length a \<and> (\<forall>k < length a. a' ! k = (if int k \<in> set idx then 0 else a ! k))"
proof (induction idx arbitrary: a)
  case Nil
  then show ?case by simp
next
  case (Cons i rest)
  from Cons.prems obtain b where w: "assigns_set a i 0 = Inr b"
    and r: "reset_loop b rest = Inr a'"
    by (auto split: sum.splits)
  from w have b: "b = a[nat i := 0]" and i: "0 \<le> i"
    by (auto simp: assigns_set_def split: if_splits)
  from Cons.IH [OF r] b i show ?case
    by (auto simp: nth_list_update)
qed

lemma reset_loop_total:
  "list_all (\<lambda>i. 0 \<le> i \<and> i < int (length a)) idx \<Longrightarrow> \<exists>a'. reset_loop a idx = Inr a'"
proof (induction idx arbitrary: a)
  case Nil
  then show ?case by simp
next
  case (Cons i rest)
  then show ?case by (auto simp: assigns_set_def)
qed

lemma reset_loop_fresh:
  assumes "int (length a) = numVariables F + 1" and "0 < length a \<longrightarrow> a ! 0 = 0"
  shows "reset_loop a [1 .. numVariables F] = Inr (replicate (length a) 0)"
proof -
  have "list_all (\<lambda>i. 0 \<le> i \<and> i < int (length a)) [1 .. numVariables F]"
    using assms(1) by (auto simp: list_all_iff)
  then obtain a' where r: "reset_loop a [1 .. numVariables F] = Inr a'"
    using reset_loop_total by blast
  note res = reset_loop_result [OF r]
  have "a' = replicate (length a) 0"
  proof (rule nth_equalityI)
    show "length a' = length (replicate (length a) (0::int))" using res by simp
  next
    fix k assume "k < length a'"
    then have k: "k < length a" using res by simp
    show "a' ! k = replicate (length a) 0 ! k"
    proof (cases "k = 0")
      case True
      with res k assms(2) show ?thesis by auto
    next
      case False
      then have "int k \<in> set [1 .. numVariables F]" using k assms(1) by auto
      with res k show ?thesis by simp
    qed
  qed
  with r show ?thesis by simp
qed

lemma tristate_replicate: "tristate (replicate n 0)"
  by (simp add: tristate_def list_all_iff)

lemma DPLL_sat_model:
  assumes run: "DPLL F a = Inr (True, a')"
    and nc: "numClauses F = int (length (clauses F))"
    and nz: "list_all (\<lambda>c. 0 \<notin> set c) (clauses F)"
    and len: "int (length a) \<le> numVariables F + 1"
    and tri: "tristate a"
  shows "complete a' F \<and> satisfies a' F"
proof -
  have r: "DPLL_run F a True a'" using run by (rule DPLL_run)
  from DPLL_run_final [OF r] obtain b where pr: "propagate F b = Inr (True, a')"
    and al: "allAssigned F a' = Inr True" by auto
  have len': "int (length a') \<le> numVariables F + 1" using DPLL_run_length [OF r] len by simp
  have tri': "tristate a'" using DPLL_run_tristate [OF r tri] .
  have fp: "for_clauses F [0 .. numClauses F - 1] False a' = Inr (Completed False a')"
    using pr by (rule propagate_fixpoint)
  have assigned: "\<exists>x. assigns_at a' v = Inr x \<and> x \<noteq> 0" if "v \<in> set [1 .. numVariables F]" for v
    using allAssigned_loop_all [of a' "[1 .. numVariables F]" v] al that
    by (simp add: allAssigned_def)
  have "complete a' F"
    unfolding complete_def list_all_iff
  proof
    fix v assume v: "v \<in> set [1 .. numVariables F]"
    from assigned [OF v] obtain x where x: "assigns_at a' v = Inr x" "x \<noteq> 0" by auto
    then have "x \<in> set a'" by (auto simp: assigns_at_def split: if_splits)
    with tri' have "x = - 1 \<or> x = 0 \<or> x = 1" by (auto simp: tristate_def list_all_iff)
    with x show "assigns_at a' v = Inr 1 \<or> assigns_at a' v = Inr (- 1)" by auto
  qed
  moreover have "satisfies a' F"
    unfolding satisfies_def list_all_iff
  proof
    fix c assume c: "c \<in> set (clauses F)"
    then obtain k where k: "k < length (clauses F)" "clauses F ! k = c"
      by (auto simp: in_set_conv_nth)
    then have "int k \<in> set [0 .. numClauses F - 1]" using nc by simp
    from for_clauses_fixpoint [OF fp this] k obtain s un
      where sc: "scan_lits a' c [] = Inr (s, un)" and su: "s \<or> 2 \<le> length un"
      by (auto simp: clause_at_def)
    show "clause_true a' c"
    proof (cases s)
      case True
      with sc show ?thesis by (auto intro: scan_lits_True)
    next
      case False
      with sc have un: "un = filter (\<lambda>l. assigns_at a' (abs l) = Inr 0) c"
        using scan_lits_False [of a' c "[]" un] by simp
      from su False have "un \<noteq> []" by auto
      then obtain l where "l \<in> set un" by (cases un) auto
      with un have l: "l \<in> set c" "assigns_at a' (abs l) = Inr 0" by auto
      from l(1) c nz have "l \<noteq> 0" by (auto simp: list_all_iff)
      moreover from l(2) have "abs l < int (length a')"
        by (auto simp: assigns_at_def split: if_splits)
      ultimately have "abs l \<in> set [1 .. numVariables F]" using len' by auto
      from assigned [OF this] l(2) show ?thesis by auto
    qed
  qed
  ultimately show ?thesis ..
qed

lemma DPLLSolver_new_fresh:
  assumes "DPLLSolver_new F = Inr s0"
  shows "formula s0 = F \<and> assigns s0 = replicate (nat (numVariables F + 1)) 0
         \<and> int (length (assigns s0)) = numVariables F + 1"
  using assms by (auto simp: DPLLSolver_new_def split: if_splits)

lemma parse_loop_no_empty:
  "parse_loop lines hf f out = (f', out') \<Longrightarrow> [] \<notin> set (clauses f)
     \<Longrightarrow> [] \<notin> set (clauses f')"
proof (induction lines arbitrary: hf f out)
  case Nil
  then show ?case by simp
next
  case (Cons line rest)
  show ?case
  proof (cases "isSkippable line")
    case True
    with Cons show ?thesis by simp
  next
    case skip: False
    show ?thesis
    proof (cases "\<not> hf \<and> starts_with ''p '' line")
      case True
      obtain nv nc msg where h: "parseHeader line (numClauses f) (numVariables f) = (nv, nc, msg)"
        by (cases "parseHeader line (numClauses f) (numVariables f)") auto
      with Cons.prems(1) skip True
      have "parse_loop rest True (f\<lparr>numClauses := nv, numVariables := nc\<rparr>) (out @ msg) = (f', out')"
        by simp
      from Cons.IH [OF this] Cons.prems(2) show ?thesis by simp
    next
      case False
      show ?thesis
      proof (cases "parseClause line = []")
        case True
        with Cons.prems(1) skip False have "parse_loop rest hf f out = (f', out')"
          by (simp add: Let_def)
        from Cons.IH [OF this Cons.prems(2)] show ?thesis .
      next
        case ne: False
        with Cons.prems(1) skip False
        have "parse_loop rest hf (f\<lparr>clauses := clauses f @ [parseClause line]\<rparr>) out = (f', out')"
          by (simp add: Let_def)
        from Cons.IH [OF this] Cons.prems(2) ne show ?thesis by auto
      qed
    qed
  qed
qed

lemma parse_no_empty: "[] \<notin> set (clauses (fst (parse v0 c0 file)))"
proof -
  obtain f' out' where p: "parse v0 c0 file = (f', out')" by (cases "parse v0 c0 file") auto
  then have "[] \<notin> set (clauses f')"
    unfolding parse_def by (rule parse_loop_no_empty) simp
  with p show ?thesis by simp
qed

lemma for_clauses_empty_clause:
  assumes "list_all (\<lambda>c. list_all (\<lambda>l. abs l < int (length a)) c) (clauses F)"
    and "i \<in> set idx" and "clause_at F i = Inr []"
    and "list_all (\<lambda>j. 0 \<le> j \<and> j < int (length (clauses F))) idx"
  shows "\<exists>b. for_clauses F idx ch a = Inr (Conflict b)"
  using assms
proof (induction idx arbitrary: ch a)
  case Nil
  then show ?case by simp
next
  case (Cons j rest)
  from Cons.prems(4) obtain cl where cl: "clause_at F j = Inr cl" "cl \<in> set (clauses F)"
    by (auto simp: clause_at_def)
  with Cons.prems(1) have rng: "list_all (\<lambda>l. abs l < int (length a)) cl"
    by (auto simp: list_all_iff)
  from scan_lits_total [OF rng, of "[]"] obtain s un where sc: "scan_lits a cl [] = Inr (s, un)"
    by auto
  have sub: "set un \<subseteq> set cl" using scan_lits_subset [OF sc] by simp
  consider (conflict) "\<not> s" "un = []"
    | (unit) lit where "\<not> s" "un = [lit]"
    | (skip) "s \<or> (un \<noteq> [] \<and> length un \<noteq> 1)"
    by (cases un) (auto simp: length_Suc_conv)
  then show ?case
  proof cases
    case conflict
    with cl sc show ?thesis by simp
  next
    case skip
    then have "cl \<noteq> []" using sc by (cases cl) auto
    with cl Cons.prems(3) have "i \<noteq> j" by auto
    with Cons.prems(2) have "i \<in> set rest" by simp
    from Cons.IH [OF Cons.prems(1) this Cons.prems(3)] Cons.prems(4)
    obtain b where "for_clauses F rest ch a = Inr (Conflict b)" by auto
    with cl sc skip show ?thesis by (auto split: if_splits)
  next
    case unit
    then have "cl \<noteq> []" using sub by auto
    with cl Cons.prems(3) have "i \<noteq> j" by auto
    with Cons.prems(2) have irest: "i \<in> set rest" by simp
    define a1 where "a1 = a[nat (abs lit) := (if lit > 0 then 1 else - 1)]"
    have "lit \<in> set cl" using unit sub by simp
    with rng have "abs lit < int (length a)" by (auto simp: list_all_iff)
    then have wr: "assigns_set a (abs lit) (if lit > 0 then 1 else - 1) = Inr a1"
      by (auto simp: assigns_set_def a1_def)
    have "list_all (\<lambda>c. list_all (\<lambda>l. abs l < int (length a1)) c) (clauses F)"
      using Cons.prems(1) by (simp add: a1_def)
    from Cons.IH [OF this irest Cons.prems(3)] Cons.prems(4)
    obtain b where "for_clauses F rest True a1 = Inr (Conflict b)" by auto
    with cl sc unit wr show ?thesis by (simp add: Let_def)
  qed
qed

lemma DPLL_empty_clause:
  assumes "numClauses F = int (length (clauses F))"
    and "list_all (\<lambda>c. list_all (\<lambda>l. abs l < int (length a)) c) (clauses F)"
    and "[] \<in> set (clauses F)"
  shows "\<exists>b. DPLL F a = Inr (False, b)"
proof -
  from assms(3) obtain k where k: "k < length (clauses F)" "clauses F ! k = []"
    by (auto simp: in_set_conv_nth)
  have "int k \<in> set [0 .. numClauses F - 1]" using k assms(1) by simp
  moreover have "clause_at F (int k) = Inr []" using k by (simp add: clause_at_def)
  moreover have "list_all (\<lambda>j. 0 \<le> j \<and> j < int (length (clauses F))) [0 .. numClauses F - 1]"
    using assms(1) by (auto simp: list_all_iff)
  ultimately obtain b where
    "for_clauses F [0 .. numClauses F - 1] False a = Inr (Conflict b)"
    using for_clauses_empty_clause [OF assms(2)] by blast
  then have "propagate F a = Inr (False, b)" by (subst propagate.simps) simp
  then have "DPLL F a = Inr (False, b)" by (subst DPLL.simps) simp
  then show ?thesis ..
qed









lemma solve_unfold:
  assumes "formula s = F" and "reset_loop (assigns s) [1 .. numVariables F] = Inr a0"
  shows "solve s =
     (case DPLL F a0 of Inl e \<Rightarrow> Inl e | Inr (result, a') \<Rightarrow> Inr (result, s\<lparr>assigns := a'\<rparr>))"
  using assms by (simp add: solve_def)




lemma filter_length_mono:
  "(\<And>x. x \<in> set xs \<Longrightarrow> Q x \<Longrightarrow> P x) \<Longrightarrow> length (filter Q xs) \<le> length (filter P xs)"
  by (induction xs) (auto simp: le_SucI)

lemma filter_length_less:
  "(\<And>x. x \<in> set xs \<Longrightarrow> Q x \<Longrightarrow> P x) \<Longrightarrow> y \<in> set xs \<Longrightarrow> P y \<Longrightarrow> \<not> Q y
     \<Longrightarrow> length (filter Q xs) < length (filter P xs)"
proof (induction xs)
  case Nil
  then show ?case by simp
next
  case (Cons x xs)
  show ?case
  proof (cases "x = y")
    case True
    have "length (filter Q xs) \<le> length (filter P xs)"
      using Cons.prems(1) by (intro filter_length_mono) auto
    with True Cons.prems show ?thesis by simp
  next
    case False
    with Cons.prems have "length (filter Q xs) < length (filter P xs)"
      by (intro Cons.IH) auto
    with Cons.prems(1) [of x] show ?thesis by auto
  qed
qed

lemma filter_length_one_more:
  "distinct xs \<Longrightarrow> (\<And>x. x \<in> set xs \<Longrightarrow> Q x \<Longrightarrow> P x \<or> x = y)
     \<Longrightarrow> length (filter Q xs) \<le> Suc (length (filter P xs))"
proof (induction xs)
  case Nil
  then show ?case by simp
next
  case (Cons x xs)
  show ?case
  proof (cases "x = y")
    case True
    with Cons.prems have "length (filter Q xs) \<le> length (filter P xs)"
      by (intro filter_length_mono) auto
    then show ?thesis by auto
  next
    case False
    from Cons.prems have "length (filter Q xs) \<le> Suc (length (filter P xs))"
      by (intro Cons.IH) auto
    with False Cons.prems(2) [of x] show ?thesis by auto
  qed
qed

lemma extends_unassigned:
  assumes "extends a b" and "assigns_at b v = Inr 0"
  shows "assigns_at a v = Inr 0"
proof -
  have len: "length b = length a" using assms(1) by (rule extends_length)
  from assms(2) have v: "0 \<le> v" "nat v < length b" and b: "b ! nat v = 0"
    by (auto simp: assigns_at_def split: if_splits)
  have "a ! nat v = 0"
  proof (rule ccontr)
    assume "a ! nat v \<noteq> 0"
    with extends_keeps [OF assms(1), of "nat v"] v len b show False by simp
  qed
  with v len show ?thesis by (simp add: assigns_at_def)
qed

lemma extends_count: "extends a b \<Longrightarrow> unassigned_count F b \<le> unassigned_count F a"
  unfolding unassigned_count_def
  by (rule filter_length_mono) (rule extends_unassigned)

lemma assigns_set_count_le:
  assumes "assigns_set a i x = Inr b" and "x \<noteq> 0"
  shows "unassigned_count F b \<le> unassigned_count F a"
  unfolding unassigned_count_def
proof (rule filter_length_mono)
  fix v assume "assigns_at b v = Inr 0"
  with assms show "assigns_at a v = Inr 0"
    by (cases "nat v = nat i") (auto simp: assigns_at_def assigns_set_def split: if_splits)
qed

lemma assigns_set_count_Suc:
  assumes "assigns_set a i x = Inr b"
  shows "unassigned_count F b \<le> Suc (unassigned_count F a)"
  unfolding unassigned_count_def
proof (rule filter_length_one_more)
  show "distinct [1 .. numVariables F]" by simp
next
  fix v assume "v \<in> set [1 .. numVariables F]" and "assigns_at b v = Inr 0"
  with assms show "assigns_at a v = Inr 0 \<or> v = i"
    by (cases "nat v = nat i") (auto simp: assigns_at_def assigns_set_def split: if_splits)
qed

lemma decide_count:
  assumes "allAssigned F a = Inr False" and "pickUnassigned F a = Inr var"
    and "assigns_set a (abs var) 1 = Inr b"
  shows "unassigned_count F b < unassigned_count F a"
  unfolding unassigned_count_def
proof (rule filter_length_less)
  note pk = pickUnassigned_unassigned [OF assms(1,2)]
  show "var \<in> set [1 .. numVariables F]" using pk by simp
  show "assigns_at a var = Inr 0" using pk by simp
  show "assigns_at b var \<noteq> Inr 0"
    using pk assms(3) by (auto simp: assigns_at_def assigns_set_def split: if_splits)
  fix v assume "assigns_at b v = Inr 0"
  with assms(3) show "assigns_at a v = Inr 0"
    by (cases "nat v = nat (abs var)")
       (auto simp: assigns_at_def assigns_set_def split: if_splits)
qed

lemma DPLL_run_count: "DPLL_run F a r a' \<Longrightarrow> unassigned_count F a' \<le> unassigned_count F a"
proof (induction rule: DPLL_run.induct)
  case (run_conflict F a a1)
  then show ?case by (auto dest!: propagate_extends intro: extends_count)
next
  case (run_complete F a a1)
  then show ?case by (auto dest!: propagate_extends intro: extends_count)
next
  case (run_first F a a1 var a2 a3)
  have "unassigned_count F a1 \<le> unassigned_count F a"
    using run_first.hyps(1) by (auto dest!: propagate_extends intro: extends_count)
  moreover have "unassigned_count F a2 < unassigned_count F a1"
    using run_first.hyps(2,3,4) by (rule decide_count)
  ultimately show ?case using run_first.IH by simp
next
  case (run_second F a a1 var a2 a3 a4 a5)
  have "unassigned_count F a1 \<le> unassigned_count F a"
    using run_second.hyps(1) by (auto dest!: propagate_extends intro: extends_count)
  moreover have "unassigned_count F a2 < unassigned_count F a1"
    using run_second.hyps(2,3,4) by (rule decide_count)
  moreover have "unassigned_count F a4 \<le> unassigned_count F a3"
    using run_second.hyps(6) by (rule assigns_set_count_le) simp
  ultimately show ?case using run_second.IH by simp
next
  case (run_exhausted F a a1 var a2 a3 a4 a5 a6)
  have "unassigned_count F a1 \<le> unassigned_count F a"
    using run_exhausted.hyps(1) by (auto dest!: propagate_extends intro: extends_count)
  moreover have "unassigned_count F a2 < unassigned_count F a1"
    using run_exhausted.hyps(2,3,4) by (rule decide_count)
  moreover have "unassigned_count F a4 \<le> unassigned_count F a3"
    using run_exhausted.hyps(6) by (rule assigns_set_count_le) simp
  moreover have "unassigned_count F a6 \<le> Suc (unassigned_count F a5)"
    using run_exhausted.hyps(8) by (rule assigns_set_count_Suc)
  ultimately show ?case using run_exhausted.IH by simp
qed

lemma DPLL_calls_count:
  "DPLL_calls F a a' \<Longrightarrow> unassigned_count F a' < unassigned_count F a"
proof (induction rule: DPLL_calls.induct)
  case (call_true F a a1 var a2)
  have "unassigned_count F a1 \<le> unassigned_count F a"
    using call_true(1) by (auto dest!: propagate_extends intro: extends_count)
  moreover have "unassigned_count F a2 < unassigned_count F a1"
    using call_true(2,3,4) by (rule decide_count)
  ultimately show ?case by simp
next
  case (call_false F a a1 var a2 a3 a4)
  have "unassigned_count F a1 \<le> unassigned_count F a"
    using call_false(1) by (auto dest!: propagate_extends intro: extends_count)
  moreover have "unassigned_count F a2 < unassigned_count F a1"
    using call_false(2,3,4) by (rule decide_count)
  moreover have "unassigned_count F a3 \<le> unassigned_count F a2"
    using call_false(5) by (auto dest!: DPLL_run intro: DPLL_run_count)
  moreover have "unassigned_count F a4 \<le> unassigned_count F a3"
    using call_false(6) by (rule assigns_set_count_le) simp
  ultimately show ?case by simp
qed

lemma DPLL_calls_chain:
  "(DPLL_calls F ^^ n) a a' \<Longrightarrow> n + unassigned_count F a' \<le> unassigned_count F a"
proof (induction n arbitrary: a')
  case 0
  then show ?case by simp
next
  case (Suc n)
  then obtain b where "(DPLL_calls F ^^ n) a b" and "DPLL_calls F b a'" by auto
  with Suc.IH [of b] DPLL_calls_count [of F b a'] show ?case by simp
qed

lemma unassigned_count_le: "unassigned_count F a \<le> nat (numVariables F)"
proof -
  have "unassigned_count F a \<le> length [1 .. numVariables F]"
    unfolding unassigned_count_def by (rule length_filter_le)
  then show ?thesis by simp
qed

lemma assigned_unassigned:
  "assigned_count F a + unassigned_count F a = nat (numVariables F)"
proof -
  have "length (filter (\<lambda>v. assigns_at a v = Inr 0) [1 .. numVariables F])
      + length (filter (\<lambda>v. \<not> assigns_at a v = Inr 0) [1 .. numVariables F])
      = length [1 .. numVariables F]"
    by (rule sum_length_filter_compl)
  then show ?thesis by (simp add: assigned_count_def unassigned_count_def)
qed

lemma DPLL_calls_wf: "wfp (\<lambda>a' a. DPLL_calls F a a')"
proof -
  have "wf (measure (unassigned_count F))" by simp
  moreover have "{(a', a). DPLL_calls F a a'} \<subseteq> measure (unassigned_count F)"
    using DPLL_calls_count by auto
  ultimately have "wf {(a', a). DPLL_calls F a a'}" by (rule wf_subset)
  then show ?thesis by (simp add: wfp_def)
qed

lemma for_clauses_total:
  assumes "list_all (\<lambda>c. list_all (\<lambda>l. abs l < int (length a)) c) (clauses F)"
    and "list_all (\<lambda>j. 0 \<le> j \<and> j < int (length (clauses F))) idx"
  shows "\<exists>p. for_clauses F idx ch a = Inr p"
  using assms
proof (induction idx arbitrary: ch a)
  case Nil
  then show ?case by simp
next
  case (Cons j rest)
  from Cons.prems(2) obtain cl where cl: "clause_at F j = Inr cl" "cl \<in> set (clauses F)"
    by (auto simp: clause_at_def)
  with Cons.prems(1) have rng: "list_all (\<lambda>l. abs l < int (length a)) cl"
    by (auto simp: list_all_iff)
  from scan_lits_total [OF rng, of "[]"] obtain s un where sc: "scan_lits a cl [] = Inr (s, un)"
    by auto
  have sub: "set un \<subseteq> set cl" using scan_lits_subset [OF sc] by simp
  from Cons.prems(2) have idx: "list_all (\<lambda>j. 0 \<le> j \<and> j < int (length (clauses F))) rest"
    by simp
  consider (conflict) "\<not> s" "un = []"
    | (unit) lit where "\<not> s" "un = [lit]"
    | (skip) "s \<or> (un \<noteq> [] \<and> length un \<noteq> 1)"
    by (cases un) (auto simp: length_Suc_conv)
  then show ?case
  proof cases
    case conflict
    with cl sc show ?thesis by simp
  next
    case skip
    from Cons.IH [OF Cons.prems(1) idx]
    obtain p where "for_clauses F rest ch a = Inr p" by auto
    with cl sc skip show ?thesis by (auto split: if_splits)
  next
    case unit
    define a1 where "a1 = a[nat (abs lit) := (if lit > 0 then 1 else - 1)]"
    have "lit \<in> set cl" using unit sub by simp
    with rng have "abs lit < int (length a)" by (auto simp: list_all_iff)
    then have wr: "assigns_set a (abs lit) (if lit > 0 then 1 else - 1) = Inr a1"
      by (auto simp: assigns_set_def a1_def)
    have "list_all (\<lambda>c. list_all (\<lambda>l. abs l < int (length a1)) c) (clauses F)"
      using Cons.prems(1) by (simp add: a1_def)
    from Cons.IH [OF this idx]
    obtain p where "for_clauses F rest True a1 = Inr p" by auto
    with cl sc unit wr show ?thesis by (simp add: Let_def)
  qed
qed

lemma propagate_total:
  assumes "numClauses F \<le> int (length (clauses F))"
    and "list_all (\<lambda>c. list_all (\<lambda>l. abs l < int (length a)) c) (clauses F)"
  shows "\<exists>r a'. propagate F a = Inr (r, a')"
  using assms
proof (induction F a rule: propagate.induct)
  case (1 F a)
  have idx: "list_all (\<lambda>j. 0 \<le> j \<and> j < int (length (clauses F))) [0 .. numClauses F - 1]"
    using "1.prems"(1) by (auto simp: list_all_iff)
  from for_clauses_total [OF "1.prems"(2) idx, of False]
  obtain p where p: "for_clauses F [0 .. numClauses F - 1] False a = Inr p" by auto
  show ?case
  proof (cases p)
    case (Conflict b)
    with p show ?thesis by (subst propagate.simps) auto
  next
    case (Completed changed b)
    show ?thesis
    proof (cases changed)
      case True
      have "length b = length a"
        using for_clauses_extends [OF p] Completed by (auto dest: extends_length)
      with "1.prems"(2)
      have "list_all (\<lambda>c. list_all (\<lambda>l. abs l < int (length b)) c) (clauses F)" by simp
      from "1.IH" [OF p Completed True "1.prems"(1) this]
      obtain r a' where "propagate F b = Inr (r, a')" by auto
      with p Completed True show ?thesis by (subst propagate.simps) auto
    next
      case False
      with p Completed show ?thesis by (subst propagate.simps) auto
    qed
  qed
qed

lemma allAssigned_loop_total:
  "list_all (\<lambda>i. 0 \<le> i \<and> i < int (length a)) idx \<Longrightarrow> \<exists>b. allAssigned_loop a idx acc = Inr b"
proof (induction idx arbitrary: acc)
  case Nil
  then show ?case by simp
next
  case (Cons i rest)
  then show ?case by (auto simp: assigns_at_def)
qed

lemma allAssigned_total:
  "int (length a) = numVariables F + 1 \<Longrightarrow> \<exists>b. allAssigned F a = Inr b"
  unfolding allAssigned_def
  by (rule allAssigned_loop_total) (auto simp: list_all_iff)

lemma pickUnassigned_loop_total:
  "list_all (\<lambda>i. 0 \<le> i \<and> i < int (length a)) idx \<Longrightarrow> \<exists>v. pickUnassigned_loop a idx = Inr v"
proof (induction idx)
  case Nil
  then show ?case by simp
next
  case (Cons i rest)
  then show ?case by (auto simp: assigns_at_def)
qed

lemma pickUnassigned_total:
  "int (length a) = numVariables F + 1 \<Longrightarrow> \<exists>v. pickUnassigned F a = Inr v"
  unfolding pickUnassigned_def
  by (rule pickUnassigned_loop_total) (auto simp: list_all_iff)

lemma assigns_set_total:
  "0 \<le> i \<Longrightarrow> i < int (length a) \<Longrightarrow> \<exists>b. assigns_set a i v = Inr b \<and> length b = length a"
  by (simp add: assigns_set_def)

lemma DPLL_in_range:
  assumes "numClauses F \<le> int (length (clauses F))"
    and "list_all (\<lambda>c. list_all (\<lambda>l. abs l \<le> numVariables F) c) (clauses F)"
    and "int (length a) = numVariables F + 1"
  shows "\<exists>r a'. DPLL F a = Inr (r, a')"
  using assms
proof (induction F a rule: DPLL.induct)
  case (1 F a)
  note nc = "1.prems"(1) and lits = "1.prems"(2) and len = "1.prems"(3)
  have "list_all (\<lambda>c. list_all (\<lambda>l. abs l < int (length a)) c) (clauses F)"
    using lits len by (auto simp: list_all_iff)
  from propagate_total [OF nc this] obtain res a1 where pr: "propagate F a = Inr (res, a1)"
    by auto
  have len1: "length a1 = length a"
    using propagate_extends [OF pr] by (rule extends_length)
  show ?case
  proof (cases res)
    case False
    with pr show ?thesis by (subst DPLL.simps) auto
  next
    case True
    from allAssigned_total [of a1 F] len len1 obtain cpl where al: "allAssigned F a1 = Inr cpl"
      by auto
    show ?thesis
    proof (cases cpl)
      case True
      with pr \<open>res\<close> al show ?thesis by (subst DPLL.simps) auto
    next
      case False
      from pickUnassigned_total [of a1 F] len len1 obtain var
        where pk: "pickUnassigned F a1 = Inr var" by auto
      have al': "allAssigned F a1 = Inr False" using al False by simp
      note v = pickUnassigned_unassigned [OF al' pk]
      have vr: "0 \<le> abs var" "abs var < int (length a1)"
        using v len len1 by auto
      from assigns_set_total [OF vr, of 1] obtain a2
        where w1: "assigns_set a1 (abs var) 1 = Inr a2" and len2: "length a2 = length a1"
        by auto
      have "int (length a2) = numVariables F + 1" using len len1 len2 by simp
      from "1.IH"(1) [OF pr refl _ al False pk w1 nc lits this] True
      obtain r1 a3 where d1: "DPLL F a2 = Inr (r1, a3)" by auto
      have len3: "length a3 = length a2" using DPLL_run_length [OF DPLL_run [OF d1]] .
      show ?thesis
      proof (cases r1)
        case True
        with pr \<open>res\<close> al False pk w1 d1 show ?thesis by (subst DPLL.simps) auto
      next
        case r1: False
        have "abs var < int (length a3)" using vr len2 len3 by simp
        from assigns_set_total [OF vr(1) this, of "- 1"] obtain a4
          where w2: "assigns_set a3 (abs var) (- 1) = Inr a4" and len4: "length a4 = length a3"
          by auto
        have "int (length a4) = numVariables F + 1" using len len1 len2 len3 len4 by simp
        from "1.IH"(2) [OF pr refl _ al False pk w1 d1 refl r1 w2 nc lits this] True
        obtain r2 a5 where d2: "DPLL F a4 = Inr (r2, a5)" by auto
        have len5: "length a5 = length a4" using DPLL_run_length [OF DPLL_run [OF d2]] .
        show ?thesis
        proof (cases r2)
          case True
          with pr \<open>res\<close> al False pk w1 d1 r1 w2 d2 show ?thesis
            by (subst DPLL.simps) auto
        next
          case r2: False
          have "abs var < int (length a5)" using vr len2 len3 len4 len5 by simp
          from assigns_set_total [OF vr(1) this, of 0] obtain a6
            where w3: "assigns_set a5 (abs var) 0 = Inr a6" by auto
          with pr \<open>res\<close> al False pk w1 d1 r1 w2 d2 r2 show ?thesis
            by (subst DPLL.simps) auto
        qed
      qed
    qed
  qed
qed

lemma solve_in_range:
  assumes new: "DPLLSolver_new F = Inr s0"
    and nc: "numClauses F \<le> int (length (clauses F))"
    and lits: "list_all (\<lambda>c. list_all (\<lambda>l. abs l \<le> numVariables F) c) (clauses F)"
  shows "\<exists>r s1. solve s0 = Inr (r, s1)"
proof -
  note fresh = DPLLSolver_new_fresh [OF new]
  have f: "formula s0 = F" and l: "int (length (assigns s0)) = numVariables F + 1"
    using fresh by blast+
  let ?a0 = "replicate (length (assigns s0)) (0::int)"
  have a0: "reset_loop (assigns s0) [1 .. numVariables F] = Inr ?a0"
    using fresh by (intro reset_loop_fresh) auto
  have "int (length ?a0) = numVariables F + 1" using l by simp
  from DPLL_in_range [OF nc lits this] obtain r a' where "DPLL F ?a0 = Inr (r, a')" by auto
  with solve_unfold [OF f a0] show ?thesis by simp
qed

section \<open>Example inputs\<close>

text \<open>
  The formulas of the spec's scenarios 1 and 2 and the other small inputs on which the
  theorems below are evaluated; a solver object with a given formula and vector; a file
  as the text of its lines, each ended by a line feed.
\<close>

abbreviation scenario1 :: Formula where
  "scenario1 \<equiv> \<lparr>numVariables = 2, numClauses = 2, clauses = [[1, 2], [- 1, - 2]]\<rparr>"

abbreviation scenario2 :: Formula where
  "scenario2 \<equiv> \<lparr>numVariables = 1, numClauses = 2, clauses = [[1], [- 1]]\<rparr>"

abbreviation leftover :: Formula where
  "leftover \<equiv> \<lparr>numVariables = 2, numClauses = 3, clauses = [[- 1, 2], [- 1, - 2], [1, - 2]]\<rparr>"

abbreviation implications :: Formula where
  "implications \<equiv> \<lparr>numVariables = 3, numClauses = 2, clauses = [[- 1, 2], [- 2, - 3]]\<rparr>"

abbreviation two_clauses :: Formula where
  "two_clauses \<equiv> \<lparr>numVariables = 2, numClauses = 2, clauses = [[1, 2], [- 1]]\<rparr>"

abbreviation none_stored :: Formula where
  "none_stored \<equiv> \<lparr>numVariables = 1, numClauses = 1, clauses = []\<rparr>"

abbreviation with_empty :: Formula where
  "with_empty \<equiv> \<lparr>numVariables = 1, numClauses = 2, clauses = [[1], []]\<rparr>"

abbreviation unread_empty :: Formula where
  "unread_empty \<equiv> \<lparr>numVariables = 0, numClauses = 0, clauses = [[]]\<rparr>"

abbreviation zero_literals :: Formula where
  "zero_literals \<equiv> \<lparr>numVariables = 0, numClauses = 1, clauses = [[0, 0]]\<rparr>"

abbreviation beyond_range :: Formula where
  "beyond_range \<equiv> \<lparr>numVariables = 2, numClauses = 1, clauses = [[3]]\<rparr>"

abbreviation solver_of :: "Formula \<Rightarrow> int list \<Rightarrow> DPLLSolver" where
  "solver_of F a \<equiv> \<lparr>formula = F, assigns = a, trail = [], decisionLevel = []\<rparr>"

abbreviation file_text :: "string list \<Rightarrow> string option" where
  "file_text ls \<equiv> Some (concat (map (\<lambda>l. l @ [CHR 0x0A]) ls))"

section \<open>Claims\<close>

text \<open>
  C1. Backtracking integrity fails in the code. A call of \<open>DPLL\<close> that returns UNSAT
  leaves behind what propagation wrote inside it: the root call on the clauses \<open>[1]\<close> and
  \<open>[-1]\<close> returns UNSAT with variable 1 still true, and in the formula \<open>leftover\<close> the
  branch that decides variable 1 true returns UNSAT with variable 2 still true.
\<close>

theorem DPLL_unsat_leaves_propagated:
  "DPLL scenario2 [0, 0] = Inr (False, [0, 1])
   \<and> DPLL leftover [0, 1, 0] = Inr (False, [0, 1, 1])"
  by code_simp

text \<open>
  C2. Completeness fails in the code. The formula \<open>(\<not>x1 \<or> x2) \<and> (\<not>x1 \<or> \<not>x2) \<and> (x1 \<or> \<not>x2)\<close>
  is satisfied by setting both variables false, and brute force finds a model, yet
  \<open>solve\<close> returns UNSAT: the value that propagation gave variable 2 in the failed branch
  \<open>x1 = true\<close> is still there when the branch \<open>x1 = false\<close> runs.
\<close>

theorem solve_unsat_but_satisfiable:
  "DPLLSolver_new leftover = Inr (solver_of leftover [0, 0, 0])
   \<and> solve (solver_of leftover [0, 0, 0]) = Inr (False, solver_of leftover [0, 0, 1])
   \<and> satisfies [0, - 1, - 1] leftover
   \<and> brute_force leftover"
  by code_simp

text \<open>
  C3. The parser stores the header's numbers the wrong way round. For the header
  \<open>p cnf 2 3\<close> the formula has \<open>numVariables = 3\<close> and \<open>numClauses = 2\<close>, whatever the two
  fields held before.
\<close>

theorem parse_header_swapped:
  "parse v0 c0 (file_text [''p cnf 2 3'', ''1 -2 0''])
     = (\<lparr>numVariables = 3, numClauses = 2, clauses = [[1, - 2]]\<rparr>, [])"
  by code_simp

text \<open>
  C4. The parser does not keep an empty clause. For the text \<open>p cnf 1 2\<close>, \<open>1 0\<close>, \<open>0\<close>
  the formula it returns holds the single clause \<open>[1]\<close>, and the program prints SAT. Nor
  is every formula with an empty clause UNSAT for the solver: with \<open>numClauses = 0\<close> the
  stored empty clause is never looked at.
\<close>

theorem parser_keeps_empty_clause_counterexample:
  "[] \<notin> set (clauses (fst (parse 0 0 (file_text [''p cnf 1 2'', ''1 0'', ''0'']))))
   \<and> main 0 0 (file_text [''p cnf 1 2'', ''1 0'', ''0''])
       = Inr [Text [], Number 1, Text [CHR 0x0A], Number 2, Text [CHR 0x0A],
              Text ''Result: '', Text ''SAT'', Text '';'']
   \<and> [] \<in> set (clauses unread_empty)
   \<and> solve (solver_of unread_empty [0]) = Inr (True, solver_of unread_empty [0])"
  by code_simp

text \<open>
  C4, as the code has it. No formula the parser returns contains an empty clause: a
  clause line that yields no literal is not stored (line 39). The solver returns UNSAT
  for every formula that contains an empty clause, provided \<open>numClauses\<close> is the number of
  stored clauses and every literal has a magnitude of at most \<open>numVariables\<close>.
\<close>

theorem empty_clause_dropped_by_parser_unsat_for_solver:
  "[] \<notin> set (clauses (fst (parse v0 c0 file)))
   \<and> (DPLLSolver_new F = Inr s0 \<and> numClauses F = int (length (clauses F))
        \<and> list_all (\<lambda>c. list_all (\<lambda>l. abs l \<le> numVariables F) c) (clauses F)
        \<and> [] \<in> set (clauses F)
      \<longrightarrow> (\<exists>s1. solve s0 = Inr (False, s1)))"
proof -
  have "\<exists>s1. solve s0 = Inr (False, s1)"
    if new: "DPLLSolver_new F = Inr s0" and nc: "numClauses F = int (length (clauses F))"
      and rng: "list_all (\<lambda>c. list_all (\<lambda>l. abs l \<le> numVariables F) c) (clauses F)"
      and emp: "[] \<in> set (clauses F)"
  proof -
    note fresh = DPLLSolver_new_fresh [OF new]
    let ?a0 = "replicate (length (assigns s0)) (0::int)"
    have a0: "reset_loop (assigns s0) [1 .. numVariables F] = Inr ?a0"
      using fresh by (intro reset_loop_fresh) auto
    have "list_all (\<lambda>c. list_all (\<lambda>l. abs l < int (length ?a0)) c) (clauses F)"
      using rng fresh by (auto simp: list_all_iff)
    from DPLL_empty_clause [OF nc this emp] obtain b where "DPLL F ?a0 = Inr (False, b)" ..
    with a0 fresh have "solve s0 = Inr (False, s0\<lparr>assigns := b\<rparr>)"
      by (simp add: solve_def)
    then show ?thesis ..
  qed
  with parse_no_empty [of v0 c0 "file"] show ?thesis by blast
qed

theorem empty_clause_dropped_by_parser_unsat_for_solver_witness:
  "[] \<notin> set (clauses (fst (parse 0 0 (file_text [''p cnf 1 2'', ''0'']))))
   \<and> DPLLSolver_new with_empty = Inr (solver_of with_empty [0, 0])
   \<and> numClauses with_empty = int (length (clauses with_empty))
   \<and> list_all (\<lambda>c. list_all (\<lambda>l. abs l \<le> numVariables with_empty) c) (clauses with_empty)
   \<and> [] \<in> set (clauses with_empty)
   \<and> (\<exists>s1. solve (solver_of with_empty [0, 0]) = Inr (False, s1))"
proof -
  have h1: "DPLLSolver_new with_empty = Inr (solver_of with_empty [0, 0])"
    by code_simp
  have h2: "numClauses with_empty = int (length (clauses with_empty))"
    by simp
  have h3: "list_all (\<lambda>c. list_all (\<lambda>l. abs l \<le> numVariables with_empty) c) (clauses with_empty)"
    by simp
  have h4: "[] \<in> set (clauses with_empty)"
    by simp
  note inst = empty_clause_dropped_by_parser_unsat_for_solver
    [of 0 0 "file_text [''p cnf 1 2'', ''0'']" with_empty "solver_of with_empty [0, 0]"]
  from inst h1 h2 h3 h4 show ?thesis by blast
qed

text \<open>
  C5. Soundness fails for the formulas the claim names. With \<open>numClauses\<close> equal to the
  number of stored clauses, the formula with the single clause \<open>[0, 0]\<close> and no variable
  is reported SAT although no literal of that clause is true: the two literals read the
  unused entry 0, count as unassigned, and the clause is passed over. For the formula the
  parser returns for \<open>p cnf 1 2\<close>, \<open>3 0\<close> the run reads \<open>assigns[3]\<close> in a vector of three
  entries; what the program returns after that is not determined by the source.
\<close>

theorem solve_sat_not_a_model_counterexample:
  "numClauses zero_literals = int (length (clauses zero_literals))
   \<and> DPLLSolver_new zero_literals = Inr (solver_of zero_literals [0])
   \<and> solve (solver_of zero_literals [0]) = Inr (True, solver_of zero_literals [0])
   \<and> \<not> satisfies [0] zero_literals
   \<and> parse 0 0 (file_text [''p cnf 1 2'', ''3 0'']) = (beyond_range, [])
   \<and> numClauses beyond_range = int (length (clauses beyond_range))
   \<and> DPLLSolver_new beyond_range = Inr (solver_of beyond_range [0, 0, 0])
   \<and> solve (solver_of beyond_range [0, 0, 0]) = Inl AssignOutOfRange"
  by code_simp

text \<open>
  C5, as the code has it. Let \<open>F\<close> be a formula whose \<open>numClauses\<close> is the number of its
  stored clauses and whose literals are not 0 and have a magnitude of at most
  \<open>numVariables\<close>, and let \<open>s0\<close> be the solver constructed for it. Then \<open>solve\<close> stays
  within its vectors and returns a verdict, and if the verdict is SAT the assignment it
  leaves is a complete model: every variable from 1 to \<open>numVariables\<close> holds 1 or -1, and
  every clause has a literal that is true.
\<close>

theorem solve_sat_is_model:
  assumes "DPLLSolver_new F = Inr s0"
    and "numClauses F = int (length (clauses F))"
    and "list_all (\<lambda>c. list_all (\<lambda>l. l \<noteq> 0 \<and> abs l \<le> numVariables F) c) (clauses F)"
  shows "(\<exists>r s'. solve s0 = Inr (r, s'))
       \<and> (solve s0 = Inr (True, s1) \<longrightarrow> complete (assigns s1) F \<and> satisfies (assigns s1) F)"
proof -
  have nz: "list_all (\<lambda>c. 0 \<notin> set c) (clauses F)"
    and rng: "list_all (\<lambda>c. list_all (\<lambda>l. abs l \<le> numVariables F) c) (clauses F)"
    using assms(3) by (auto simp: list_all_iff)
  have "\<exists>r s'. solve s0 = Inr (r, s')"
    using assms(1) _ rng by (rule solve_in_range) (simp add: assms(2))
  moreover have "complete (assigns s1) F \<and> satisfies (assigns s1) F"
    if sat: "solve s0 = Inr (True, s1)"
  proof -
    note new = DPLLSolver_new_fresh [OF assms(1)]
    have a0: "reset_loop (assigns s0) [1 .. numVariables F]
        = Inr (replicate (length (assigns s0)) 0)"
      using new by (intro reset_loop_fresh) auto
    from sat a0 new
    have run: "DPLL F (replicate (length (assigns s0)) 0) = Inr (True, assigns s1)"
      by (auto simp: solve_def split: sum.splits)
    show ?thesis
      using run assms(2) nz
    proof (rule DPLL_sat_model)
      show "int (length (replicate (length (assigns s0)) (0::int))) \<le> numVariables F + 1"
        using new by simp
      show "tristate (replicate (length (assigns s0)) 0)" by (rule tristate_replicate)
    qed
  qed
  ultimately show ?thesis by blast
qed

theorem solve_sat_is_model_witness:
  "DPLLSolver_new scenario1 = Inr (solver_of scenario1 [0, 0, 0])
   \<and> numClauses scenario1 = int (length (clauses scenario1))
   \<and> list_all (\<lambda>c. list_all (\<lambda>l. l \<noteq> 0 \<and> abs l \<le> numVariables scenario1) c) (clauses scenario1)
   \<and> (\<exists>r s'. solve (solver_of scenario1 [0, 0, 0]) = Inr (r, s'))
   \<and> solve (solver_of scenario1 [0, 0, 0]) = Inr (True, solver_of scenario1 [0, 1, - 1])
   \<and> complete [0, 1, - 1] scenario1
   \<and> satisfies [0, 1, - 1] scenario1"
proof -
  have h1: "DPLLSolver_new scenario1 = Inr (solver_of scenario1 [0, 0, 0])"
    by code_simp
  have h2: "numClauses scenario1 = int (length (clauses scenario1))"
    by simp
  have h3: "list_all (\<lambda>c. list_all (\<lambda>l. l \<noteq> 0 \<and> abs l \<le> numVariables scenario1) c)
      (clauses scenario1)"
    by simp
  have h4: "solve (solver_of scenario1 [0, 0, 0]) = Inr (True, solver_of scenario1 [0, 1, - 1])"
    by code_simp
  note inst = solve_sat_is_model [OF h1 h2 h3, of "solver_of scenario1 [0, 1, - 1]"]
  from inst h4 have c: "(\<exists>r s'. solve (solver_of scenario1 [0, 0, 0]) = Inr (r, s'))"
    "complete [0, 1, - 1] scenario1" "satisfies [0, 1, - 1] scenario1"
    by simp_all
  from h1 h2 h3 h4 c show ?thesis by blast
qed

text \<open>
  C6. A header without the word \<open>cnf\<close> is not rejected. The parser prints
  \<open>Invalid header\<close> and returns a formula all the same, built from the numbers of that
  header, and the program goes on to solve it and prints a verdict. A header that does
  not start with \<open>p\<close> is not even noticed: the line is read as a clause line that yields
  no literal, and the formula returned keeps whatever its two counts held.
\<close>

theorem invalid_header_is_solved:
  "parse v0 c0 (file_text [''p dnf 1 1'', ''1 0''])
     = (\<lparr>numVariables = 1, numClauses = 1, clauses = [[1]]\<rparr>, ''Invalid header'')
   \<and> main v0 c0 (file_text [''p dnf 1 1'', ''1 0''])
     = Inr [Text ''Invalid header'', Number 1, Text [CHR 0x0A], Number 1, Text [CHR 0x0A],
            Text ''Result: '', Text ''SAT'', Text '';'']
   \<and> parse v0 c0 (file_text [''q cnf 1 1'', ''1 0''])
     = (\<lparr>numVariables = v0, numClauses = c0, clauses = [[1]]\<rparr>, [])"
  by code_simp

text \<open>
  C7. The clause accesses of the propagator are safe under the precondition that
  \<open>numClauses\<close> does not exceed the number of stored clauses: then \<open>propagate\<close> never
  reads \<open>formula.clauses\<close> out of range, from any assignment vector. Without the
  precondition no run of \<open>propagate\<close> completes a pass: it cannot return true. The parser
  breaks the precondition: for the text \<open>p cnf 1 1\<close> followed by the empty clause line
  \<open>0\<close> it sets \<open>numClauses = 1\<close> from the header and stores no clause, and the
  propagator, started by \<open>main\<close> on the fresh vector, reads \<open>clauses[0]\<close> out of range.
\<close>

theorem clause_access_in_bounds:
  "(numClauses F \<le> int (length (clauses F)) \<longrightarrow> propagate F a \<noteq> Inl ClauseOutOfRange)
   \<and> (int (length (clauses F)) < numClauses F \<longrightarrow> propagate F a \<noteq> Inr (True, a'))
   \<and> parse v0 c0 (file_text [''p cnf 1 1'', ''0'']) = (none_stored, [])
   \<and> propagate none_stored [0, 0] = Inl ClauseOutOfRange
   \<and> main v0 c0 (file_text [''p cnf 1 1'', ''0'']) = Inl ClauseOutOfRange"
proof -
  have "numClauses F \<le> int (length (clauses F)) \<longrightarrow> propagate F a \<noteq> Inl ClauseOutOfRange"
    by (simp add: propagate_in_range)
  moreover have "int (length (clauses F)) < numClauses F \<longrightarrow> propagate F a \<noteq> Inr (True, a')"
    by (simp add: propagate_beyond_range)
  moreover have "parse v0 c0 (file_text [''p cnf 1 1'', ''0'']) = (none_stored, [])"
    by code_simp
  moreover have "propagate none_stored [0, 0] = Inl ClauseOutOfRange"
    by code_simp
  moreover have "main v0 c0 (file_text [''p cnf 1 1'', ''0'']) = Inl ClauseOutOfRange"
    by code_simp
  ultimately show ?thesis by blast
qed

theorem clause_access_in_bounds_witness:
  "numClauses two_clauses \<le> int (length (clauses two_clauses))
   \<and> propagate two_clauses [0, 0, 0] \<noteq> Inl ClauseOutOfRange
   \<and> int (length (clauses none_stored)) < numClauses none_stored
   \<and> propagate none_stored [0, 0] \<noteq> Inr (True, [0, 0])"
proof -
  have h1: "numClauses two_clauses \<le> int (length (clauses two_clauses))"
    by simp
  have h2: "int (length (clauses none_stored)) < numClauses none_stored"
    by simp
  from clause_access_in_bounds [of two_clauses "[0, 0, 0]"] h1
  have c1: "propagate two_clauses [0, 0, 0] \<noteq> Inl ClauseOutOfRange"
    by blast
  from clause_access_in_bounds [of none_stored "[0, 0]" "[0, 0]"] h2
  have c2: "propagate none_stored [0, 0] \<noteq> Inr (True, [0, 0])"
    by blast
  from h1 c1 h2 c2 show ?thesis by blast
qed



text \<open>
  C9. Termination. The recursion of \<open>DPLL\<close> is well-founded at every formula and every
  assignment vector, and no chain of nested recursive calls descends for ever. Each
  recursive call is entered with strictly more assigned variables than the call that
  makes it, and a chain of \<open>n\<close> nested calls has \<open>n \<le> numVariables\<close>.
\<close>

theorem DPLL_terminates:
  "DPLL_dom (F, a)
   \<and> wfp (\<lambda>a' a. DPLL_calls F a a')
   \<and> (DPLL_calls F a a' \<longrightarrow> assigned_count F a < assigned_count F a')
   \<and> ((DPLL_calls F ^^ n) a a'
        \<longrightarrow> n + assigned_count F a \<le> assigned_count F a' \<and> n \<le> nat (numVariables F))"
proof -
  note total = assigned_unassigned [of F a] assigned_unassigned [of F a']
  have "DPLL_dom (F, a)" using DPLL_total by simp
  moreover have "wfp (\<lambda>a' a. DPLL_calls F a a')" by (rule DPLL_calls_wf)
  moreover have "assigned_count F a < assigned_count F a'" if "DPLL_calls F a a'"
    using DPLL_calls_count [OF that] total by simp
  moreover have "n + assigned_count F a \<le> assigned_count F a' \<and> n \<le> nat (numVariables F)"
    if "(DPLL_calls F ^^ n) a a'"
    using DPLL_calls_chain [OF that] total by simp
  ultimately show ?thesis by blast
qed

theorem DPLL_terminates_witness:
  "DPLL_calls scenario1 [0, 0, 0] [0, 1, 0]
   \<and> assigned_count scenario1 [0, 0, 0] < assigned_count scenario1 [0, 1, 0]
   \<and> (DPLL_calls scenario1 ^^ 1) [0, 0, 0] [0, 1, 0]
   \<and> 1 + assigned_count scenario1 [0, 0, 0] \<le> assigned_count scenario1 [0, 1, 0]
   \<and> 1 \<le> nat (numVariables scenario1)"
proof -
  have p1: "propagate scenario1 [0, 0, 0] = Inr (True, [0, 0, 0])"
    by code_simp
  have p2: "allAssigned scenario1 [0, 0, 0] = Inr False"
    by code_simp
  have p3: "pickUnassigned scenario1 [0, 0, 0] = Inr 1"
    by code_simp
  have p4: "assigns_set [0, 0, 0] (abs 1) 1 = Inr [0, 1, 0]"
    by code_simp
  have h1: "DPLL_calls scenario1 [0, 0, 0] [0, 1, 0]"
    using p1 p2 p3 p4 by (rule DPLL_calls.call_true)
  then have h2: "(DPLL_calls scenario1 ^^ 1) [0, 0, 0] [0, 1, 0]"
    by auto
  note inst = DPLL_terminates [of scenario1 "[0, 0, 0]" "[0, 1, 0]" 1]
  from inst h1 h2 show ?thesis by blast
qed

text \<open>
  C10. Unit propagation writes only to entries that read 0 at the moment of the write.
  The scan of a clause against the vector \<open>a\<close> collects only literals whose variable
  reads 0 in \<open>a\<close>. The step of a pass on one clause, entered with the vector \<open>a\<close>, writes
  exactly when the scan returns one such literal and the clause is not satisfied: it
  writes 1 or -1 to the entry of that literal, which reads 0 in \<open>a\<close>, and goes on to the
  next clause with that one entry changed. In every other case the step writes nothing:
  it ends the pass with an error or a conflict, or goes on with \<open>a\<close> itself. Hence
  whatever \<open>propagate\<close>, which is a repetition of such passes, returns, the vector it
  leaves is reached from the vector it was given by such writes; it has the same length,
  and every entry that was not 0 before the call holds the same value after it.
\<close>

theorem propagate_writes_only_unassigned:
  "(scan_lits a clause [] = Inr (s, un) \<longrightarrow> list_all (\<lambda>l. assigns_at a (abs l) = Inr 0) un)
   \<and> (clause_at F i = Inr clause \<and> scan_lits a clause [] = Inr (False, [lit])
        \<longrightarrow> assigns_at a (abs lit) = Inr 0
          \<and> for_clauses F (i # rest) ch a
              = for_clauses F rest True (a[nat (abs lit) := (if 0 < lit then 1 else - 1)]))
   \<and> (clause_at F i = Inr clause \<and> scan_lits a clause [] = Inr (s, un) \<and> (s \<or> length un \<noteq> 1)
        \<longrightarrow> for_clauses F (i # rest) ch a
              = (if \<not> s \<and> un = [] then Inr (Conflict a) else for_clauses F rest ch a))
   \<and> (clause_at F i = Inl e \<longrightarrow> for_clauses F (i # rest) ch a = Inl e)
   \<and> (clause_at F i = Inr clause \<and> scan_lits a clause [] = Inl e
        \<longrightarrow> for_clauses F (i # rest) ch a = Inl e)
   \<and> (propagate F a = Inr (r, a')
        \<longrightarrow> extends a a' \<and> length a' = length a
          \<and> (\<forall>k < length a. a ! k \<noteq> 0 \<longrightarrow> a' ! k = a ! k))"
proof -
  have scan: "list_all (\<lambda>l. assigns_at a (abs l) = Inr 0) un"
    if "scan_lits a clause [] = Inr (s, un)" for s un
    using scan_lits_unassigned [OF that] by simp
  have unit: "assigns_at a (abs lit) = Inr 0
      \<and> for_clauses F (i # rest) ch a
          = for_clauses F rest True (a[nat (abs lit) := (if 0 < lit then 1 else - 1)])"
    if cl: "clause_at F i = Inr clause" and sc: "scan_lits a clause [] = Inr (False, [lit])"
  proof -
    have rd: "assigns_at a (abs lit) = Inr 0" using scan [OF sc] by simp
    then have "assigns_set a (abs lit) (if 0 < lit then 1 else - 1)
        = Inr (a[nat (abs lit) := (if 0 < lit then 1 else - 1)])"
      by (auto simp: assigns_at_def assigns_set_def split: if_splits)
    with cl sc rd show ?thesis by (simp add: Let_def)
  qed
  have other: "for_clauses F (i # rest) ch a
      = (if \<not> s \<and> un = [] then Inr (Conflict a) else for_clauses F rest ch a)"
    if "clause_at F i = Inr clause" and "scan_lits a clause [] = Inr (s, un)"
      and "s \<or> length un \<noteq> 1"
    using that by auto
  have err1: "for_clauses F (i # rest) ch a = Inl e" if "clause_at F i = Inl e"
    using that by simp
  have err2: "for_clauses F (i # rest) ch a = Inl e"
    if "clause_at F i = Inr clause" and "scan_lits a clause [] = Inl e"
    using that by simp
  have whole: "extends a a' \<and> length a' = length a
      \<and> (\<forall>k < length a. a ! k \<noteq> 0 \<longrightarrow> a' ! k = a ! k)"
    if run: "propagate F a = Inr (r, a')"
  proof -
    have ext: "extends a a'" using run by (rule propagate_extends)
    moreover have "length a' = length a" using ext by (rule extends_length)
    moreover have "\<forall>k < length a. a ! k \<noteq> 0 \<longrightarrow> a' ! k = a ! k"
      using ext by (auto intro: extends_keeps)
    ultimately show ?thesis by simp
  qed
  from scan unit other err1 err2 whole show ?thesis by blast
qed

theorem propagate_writes_only_unassigned_witness:
  "scan_lits [0, 1, 0, 0] [- 1, 2] [] = Inr (False, [2])
   \<and> list_all (\<lambda>l. assigns_at [0, 1, 0, 0] (abs l) = Inr 0) [2]
   \<and> clause_at implications 0 = Inr [- 1, 2]
   \<and> assigns_at [0, 1, 0, 0] (abs 2) = Inr 0
   \<and> for_clauses implications [0, 1] False [0, 1, 0, 0]
       = for_clauses implications [1] True [0, 1, 1, 0]
   \<and> scan_lits [0, 1, 1, 0] [- 1, 2] [] = Inr (True, [])
   \<and> for_clauses implications [0, 1] False [0, 1, 1, 0]
       = for_clauses implications [1] False [0, 1, 1, 0]
   \<and> clause_at implications 2 = Inl ClauseOutOfRange
   \<and> for_clauses implications [2] False [0, 1, 0, 0] = Inl ClauseOutOfRange
   \<and> scan_lits [0] [- 1, 2] [] = Inl AssignOutOfRange
   \<and> for_clauses implications [0, 1] False [0] = Inl AssignOutOfRange
   \<and> propagate implications [0, 1, 0, 0] = Inr (True, [0, 1, 1, - 1])
   \<and> extends [0, 1, 0, 0] [0, 1, 1, - 1]
   \<and> length [0, 1, 1, - 1 :: int] = length [0, 1, 0, 0 :: int]
   \<and> [0, 1, 1, - 1 :: int] ! 1 = [0, 1, 0, 0] ! 1"
proof -
  have h1: "scan_lits [0, 1, 0, 0] [- 1, 2] [] = Inr (False, [2])"
    by code_simp
  have h2: "clause_at implications 0 = Inr [- 1, 2]"
    by code_simp
  have h3: "scan_lits [0, 1, 1, 0] [- 1, 2] [] = Inr (True, [])"
    by code_simp
  have h4: "clause_at implications 2 = Inl ClauseOutOfRange"
    by code_simp
  have h5: "scan_lits [0] [- 1, 2] [] = Inl AssignOutOfRange"
    by code_simp
  have h6: "propagate implications [0, 1, 0, 0] = Inr (True, [0, 1, 1, - 1])"
    by code_simp
  note step = propagate_writes_only_unassigned
    [of "[0, 1, 0, 0]" "[- 1, 2]" False "[2]" implications 0 2 "[1]" False
        ClauseOutOfRange True "[0, 1, 1, - 1]"]
  note skip = propagate_writes_only_unassigned
    [of "[0, 1, 1, 0]" "[- 1, 2]" True "[]" implications 0 _ "[1]" False]
  note err1 = propagate_writes_only_unassigned
    [of "[0, 1, 0, 0]" _ _ _ implications 2 _ "[]" False ClauseOutOfRange]
  note err2 = propagate_writes_only_unassigned
    [of "[0]" "[- 1, 2]" _ _ implications 0 _ "[1]" False AssignOutOfRange]
  have c1: "list_all (\<lambda>l. assigns_at [0, 1, 0, 0] (abs l) = Inr 0) [2]"
    using step h1 by blast
  have c2: "assigns_at [0, 1, 0, 0] (abs 2) = Inr 0"
    "for_clauses implications [0, 1] False [0, 1, 0, 0]
       = for_clauses implications [1] True [0, 1, 1, 0]"
    using step h1 h2 by simp_all
  have c3: "for_clauses implications [0, 1] False [0, 1, 1, 0]
       = for_clauses implications [1] False [0, 1, 1, 0]"
    using skip h2 h3 by simp
  have c4: "for_clauses implications [2] False [0, 1, 0, 0] = Inl ClauseOutOfRange"
    using err1 h4 by blast
  have c5: "for_clauses implications [0, 1] False [0] = Inl AssignOutOfRange"
    using err2 h2 h5 by blast
  have c6: "extends [0, 1, 0, 0] [0, 1, 1, - 1]"
    using step h6 by blast
  from h1 c1 h2 c2 h3 c3 h4 c4 h5 c5 h6 c6 show ?thesis by simp
qed

end
